theory Spec2Isabelle
  imports Complex_Main
begin

section \<open>Decision tree induction (decisiontree notebook)\<close>

text \<open>
  The embedding follows the classes \<open>Node\<close> and \<open>DecisionTreeClassifier\<close> of the
  decision tree notebook. A NumPy matrix \<open>X\<close> is the list of its rows, a label vector
  \<open>y\<close> a list of Python integers. Feature values and gains are real numbers. The
  functions of this section compute with them exactly and in unbounded memory; the
  section after it has the same functions with the rounding of double precision and
  the memory of the process as a parameter, and the properties that depend on either
  are stated for those. Every exception the notebook can raise is a value of
  \<open>error\<close>, and a function that can raise returns \<open>error + result\<close>.
\<close>

subsection \<open>Data model\<close>

datatype error = ValueError | IndexError | ZeroDivisionError | AttributeError | MemoryError

text \<open>
  \<open>Node\<close>: after construction a node either carries \<open>value\<close> (a leaf) or
  \<open>feature_index\<close>, \<open>threshold\<close>, \<open>info_gain\<close>, \<open>left\<close> and \<open>right\<close>.
\<close>

datatype node =
    Leaf int
  | Decision nat real real node node

text \<open>The dictionary \<open>best_split\<close> returns, with its three fixed keys.\<close>

record split_info =
  feature_index :: nat
  threshold :: real
  info_gain :: real

text \<open>The attributes of \<open>DecisionTreeClassifier\<close>.\<close>

record classifier =
  max_depth :: "int option"
  min_samples_split :: int
  n_classes :: "nat option"
  n_features :: "nat option"
  root_node :: "node option"

definition init :: "int option \<Rightarrow> int \<Rightarrow> classifier" where
  "init md mss =
     \<lparr>max_depth = md, min_samples_split = mss, n_classes = None, n_features = None,
      root_node = None\<rparr>"

subsection \<open>NumPy primitives\<close>

text \<open>\<open>np.unique\<close>: the distinct values, in ascending order.\<close>

definition unique :: "'a::linorder list \<Rightarrow> 'a list" where
  "unique xs = sort (remdups xs)"

text \<open>
  \<open>a[mask]\<close> with a boolean mask: the entries at the positions where the mask is
  true; NumPy raises IndexError when the mask is not as long as the array.
\<close>

definition select :: "'a list \<Rightarrow> bool list \<Rightarrow> 'a list" where
  "select xs msk = map fst (filter snd (zip xs msk))"

definition mask_select :: "'a list \<Rightarrow> bool list \<Rightarrow> error + 'a list" where
  "mask_select xs msk =
     (if length msk = length xs then Inr (select xs msk) else Inl IndexError)"

text \<open>
  \<open>X.shape[1]\<close> and \<open>X[:, j]\<close>. A matrix without rows is the empty list; its column
  count is read as 0, and no function below depends on it, since every loop over the
  rows or over the thresholds of a column is then empty.
\<close>

definition shape1 :: "real list list \<Rightarrow> nat" where
  "shape1 X = (case X of [] \<Rightarrow> 0 | r # _ \<Rightarrow> length r)"

definition column :: "real list list \<Rightarrow> nat \<Rightarrow> real list" where
  "column X j = map (\<lambda>r. r ! j) X"

text \<open>
  \<open>np.bincount\<close> counts the occurrences of 0, 1, ..., max y and raises ValueError on
  a negative entry; of the empty array it is the empty array. Here the array of
  counters is always obtained; \<open>bincount_env\<close> in the next section has the two errors
  of its allocation. \<open>np.argmax\<close> is the first index of the maximum and raises
  ValueError on the empty array.
\<close>

definition bincount :: "int list \<Rightarrow> error + nat list" where
  "bincount y =
     (if list_ex (\<lambda>v. v < 0) y then Inl ValueError
      else if y = [] then Inr []
      else Inr (map (\<lambda>i. count_list y (int i)) [0..<nat (Max (set y)) + 1]))"

definition argmax :: "nat list \<Rightarrow> error + nat" where
  "argmax xs =
     (if xs = [] then Inl ValueError
      else Inr (length (takeWhile (\<lambda>v. v < Max (set xs)) xs)))"

subsection \<open>Impurity evaluator\<close>

text \<open>The value \<open>p\<close> of the loop body of \<open>entropy\<close>, for the class \<open>cls\<close>.\<close>

definition proportion :: "int list \<Rightarrow> int \<Rightarrow> real" where
  "proportion y cls = real (length (filter (\<lambda>v. v = cls) y)) / real (length y)"

definition entropy :: "int list \<Rightarrow> real" where
  "entropy y =
     fold (\<lambda>cls e. e - proportion y cls * log 2 (proportion y cls)) (unique y) 0"

definition information_gain :: "int list \<Rightarrow> int list \<Rightarrow> int list \<Rightarrow> error + real" where
  "information_gain parent left_child right_child =
     (if parent = [] then Inl ZeroDivisionError
      else
        let weight_left = real (length left_child) / real (length parent);
            weight_right = real (length right_child) / real (length parent)
        in Inr (entropy parent -
                  (weight_left * entropy left_child + weight_right * entropy right_child)))"

subsection \<open>Split search\<close>

text \<open>
  The state of the two loops of \<open>best_split\<close> is the pair of the local variables
  \<open>best_gain\<close> and \<open>best_split\<close>. \<open>threshold_loop\<close> is the inner loop over the
  thresholds of one feature, \<open>feature_loop\<close> the outer loop over the features.
\<close>

type_synonym search_state = "real \<times> split_info option"

fun threshold_loop ::
  "real list \<Rightarrow> int list \<Rightarrow> nat \<Rightarrow> real list \<Rightarrow> search_state \<Rightarrow> error + search_state"
where
  "threshold_loop feature_values y fi [] st = Inr st"
| "threshold_loop feature_values y fi (th # ths) st =
     (let left_mask = map (\<lambda>v. v \<le> th) feature_values;
          right_mask = map Not left_mask
      in case mask_select y left_mask of
           Inl e \<Rightarrow> Inl e
         | Inr y_left \<Rightarrow>
             if length y_left = 0 then threshold_loop feature_values y fi ths st
             else
               (case mask_select y right_mask of
                  Inl e \<Rightarrow> Inl e
                | Inr y_right \<Rightarrow>
                    if length y_right = 0 then threshold_loop feature_values y fi ths st
                    else
                      (case information_gain y y_left y_right of
                         Inl e \<Rightarrow> Inl e
                       | Inr gain \<Rightarrow>
                           if gain > fst st
                           then threshold_loop feature_values y fi ths
                                  (gain,
                                   Some \<lparr>feature_index = fi, threshold = th,
                                         info_gain = gain\<rparr>)
                           else threshold_loop feature_values y fi ths st)))"

fun feature_loop ::
  "real list list \<Rightarrow> int list \<Rightarrow> nat list \<Rightarrow> search_state \<Rightarrow> error + search_state"
where
  "feature_loop X y [] st = Inr st"
| "feature_loop X y (fi # fis) st =
     (case threshold_loop (column X fi) y fi (unique (column X fi)) st of
        Inl e \<Rightarrow> Inl e
      | Inr st' \<Rightarrow> feature_loop X y fis st')"

definition best_split :: "real list list \<Rightarrow> int list \<Rightarrow> error + split_info option" where
  "best_split X y =
     (case feature_loop X y [0..<shape1 X] (-1, None) of
        Inl e \<Rightarrow> Inl e
      | Inr st \<Rightarrow> Inr (snd st))"

subsection \<open>Recursive tree builder\<close>

text \<open>\<open>np.argmax(np.bincount(y))\<close>, and the leaf built from it.\<close>

definition leaf_value :: "int list \<Rightarrow> error + int" where
  "leaf_value y =
     (case bincount y of
        Inl e \<Rightarrow> Inl e
      | Inr counts \<Rightarrow> (case argmax counts of Inl e \<Rightarrow> Inl e | Inr i \<Rightarrow> Inr (int i)))"

definition make_leaf :: "int list \<Rightarrow> error + node" where
  "make_leaf y = (case leaf_value y of Inl e \<Rightarrow> Inl e | Inr v \<Rightarrow> Inr (Leaf v))"

text \<open>The stopping criteria that \<open>build_tree\<close> checks before it searches a split.\<close>

definition stopping :: "classifier \<Rightarrow> real list list \<Rightarrow> int list \<Rightarrow> nat \<Rightarrow> bool" where
  "stopping self X y depth =
     ((case max_depth self of None \<Rightarrow> False | Some m \<Rightarrow> int depth \<ge> m) \<or>
      int (length X) < min_samples_split self \<or>
      length (unique y) = 1)"

text \<open>A split separates the rows when each side of it receives a row.\<close>

definition separates :: "real list list \<Rightarrow> nat \<Rightarrow> real \<Rightarrow> bool" where
  "separates X fi th =
     (list_ex (\<lambda>v. v \<le> th) (column X fi) \<and> list_ex (\<lambda>v. \<not> v \<le> th) (column X fi))"

text \<open>
  Facts about the split search that the termination of \<open>build_tree\<close> rests on: a
  split it returns sends a row to each side, so each side is shorter than \<open>X\<close>.
\<close>

lemma mask_select_Inr:
  "mask_select xs msk = Inr zs \<Longrightarrow> length msk = length xs \<and> zs = select xs msk"
  by (auto simp: mask_select_def split: if_splits)

lemma mask_select_same_length:
  "length msk = length xs \<Longrightarrow> mask_select xs msk = Inr (select xs msk)"
  by (simp add: mask_select_def)

lemma length_select:
  "length msk = length xs \<Longrightarrow> length (select xs msk) = length (filter id msk)"
  unfolding select_def by (induction msk xs rule: list_induct2) auto

lemma length_mask_select:
  "mask_select xs msk = Inr zs \<Longrightarrow> length zs = length (filter id msk)"
  using mask_select_Inr [of xs msk zs] length_select [of msk xs] by simp

lemma filter_id_nonempty: "length (filter id msk) \<noteq> 0 \<longleftrightarrow> True \<in> set msk"
  by (induction msk) auto

lemma filter_id_shorter: "length (filter id msk) < length msk \<longleftrightarrow> False \<in> set msk"
  by (induction msk) (auto simp: less_Suc_eq_le)

lemma mask_select_nonempty:
  "mask_select xs msk = Inr zs \<Longrightarrow> length zs \<noteq> 0 \<longleftrightarrow> True \<in> set msk"
  using length_mask_select [of xs msk zs] filter_id_nonempty [of msk] by simp

lemma mask_select_shorter:
  "mask_select xs msk = Inr zs \<Longrightarrow> length zs < length xs \<longleftrightarrow> False \<in> set msk"
  using length_mask_select [of xs msk zs] filter_id_shorter [of msk]
    mask_select_Inr [of xs msk zs] by simp

lemma separates_iff:
  "separates X fi th \<longleftrightarrow>
     True \<in> set (map (\<lambda>v. v \<le> th) (column X fi)) \<and>
     False \<in> set (map (\<lambda>v. v \<le> th) (column X fi))"
  by (auto simp: separates_def list_ex_iff)

lemma set_right_mask:
  "True \<in> set (map Not msk) \<longleftrightarrow> False \<in> set msk"
  "False \<in> set (map Not msk) \<longleftrightarrow> True \<in> set msk"
  by (induction msk) auto

definition separating_state :: "real list list \<Rightarrow> search_state \<Rightarrow> bool" where
  "separating_state X st =
     (case snd st of None \<Rightarrow> True
      | Some bs \<Rightarrow> separates X (feature_index bs) (threshold bs))"

lemma threshold_loop_separating:
  "threshold_loop (column X fi) y fi ths st = Inr st' \<Longrightarrow> separating_state X st \<Longrightarrow>
     separating_state X st'"
proof (induction ths arbitrary: st)
  case Nil
  then show ?case by simp
next
  case (Cons th ths)
  let ?lm = "map (\<lambda>v. v \<le> th) (column X fi)"
  from Cons.prems(1) obtain yl where yl: "mask_select y ?lm = Inr yl"
    by (auto simp: Let_def split: sum.splits)
  show ?case
  proof (cases "length yl = 0")
    case True
    with Cons yl show ?thesis by (simp add: Let_def)
  next
    case nl: False
    from Cons.prems(1) yl nl obtain yr where yr: "mask_select y (map Not ?lm) = Inr yr"
      by (auto simp: Let_def split: sum.splits)
    show ?thesis
    proof (cases "length yr = 0")
      case True
      with Cons yl yr nl show ?thesis by (simp add: Let_def)
    next
      case nr: False
      from Cons.prems(1) yl yr nl nr obtain g where g: "information_gain y yl yr = Inr g"
        by (auto simp: Let_def split: sum.splits)
      have sep: "separates X fi th"
        using mask_select_nonempty [OF yl] mask_select_nonempty [OF yr] nl nr
        unfolding separates_iff set_right_mask by blast
      show ?thesis
      proof (cases "g > fst st")
        case True
        have "separating_state X
                (g, Some \<lparr>feature_index = fi, threshold = th, info_gain = g\<rparr>)"
          using sep by (simp add: separating_state_def)
        with Cons.IH Cons.prems(1) yl yr nl nr g True show ?thesis
          by (simp add: Let_def)
      next
        case False
        with Cons yl yr nl nr g show ?thesis by (simp add: Let_def)
      qed
    qed
  qed
qed

lemma feature_loop_separating:
  "feature_loop X y fis st = Inr st' \<Longrightarrow> separating_state X st \<Longrightarrow>
     separating_state X st'"
proof (induction fis arbitrary: st)
  case Nil
  then show ?case by simp
next
  case (Cons fi fis)
  from Cons.prems(1) obtain st1
    where st1: "threshold_loop (column X fi) y fi (unique (column X fi)) st = Inr st1"
      and rest: "feature_loop X y fis st1 = Inr st'"
    by (auto split: sum.splits)
  from threshold_loop_separating [OF st1 Cons.prems(2)] Cons.IH [OF rest]
  show ?case by simp
qed

lemma best_split_separates:
  "best_split X y = Inr (Some bs) \<Longrightarrow> separates X (feature_index bs) (threshold bs)"
proof -
  assume a: "best_split X y = Inr (Some bs)"
  then obtain st where st: "feature_loop X y [0..<shape1 X] (-1, None) = Inr st"
    and bs: "snd st = Some bs"
    by (auto simp: best_split_def split: sum.splits)
  have "separating_state X (-1, None)" by (simp add: separating_state_def)
  from feature_loop_separating [OF st this] bs show ?thesis
    by (simp add: separating_state_def)
qed

lemma separates_left_shorter:
  "separates X fi th \<Longrightarrow> mask_select X (map (\<lambda>v. v \<le> th) (column X fi)) = Inr Xl \<Longrightarrow>
     length Xl < length X"
  using mask_select_shorter [of X "map (\<lambda>v. v \<le> th) (column X fi)" Xl]
  unfolding separates_iff by blast

lemma separates_right_shorter:
  "separates X fi th \<Longrightarrow>
     mask_select X (map Not (map (\<lambda>v. v \<le> th) (column X fi))) = Inr Xr \<Longrightarrow>
     length Xr < length X"
  using mask_select_shorter [of X "map Not (map (\<lambda>v. v \<le> th) (column X fi))" Xr]
  unfolding separates_iff set_right_mask by blast

text \<open>
  \<open>build_tree\<close>. The two recursive calls are made in the order of the source: the
  left subtree is built, with whatever it raises, before the right one.
\<close>

function build_tree ::
  "classifier \<Rightarrow> real list list \<Rightarrow> int list \<Rightarrow> nat \<Rightarrow> error + node"
where
  "build_tree self X y depth =
     (if stopping self X y depth then make_leaf y
      else
        (case best_split X y of
           Inl e \<Rightarrow> Inl e
         | Inr None \<Rightarrow> make_leaf y
         | Inr (Some bs) \<Rightarrow>
             let left_mask = map (\<lambda>v. v \<le> threshold bs) (column X (feature_index bs));
                 right_mask = map Not left_mask
             in (case mask_select X left_mask of
                   Inl e \<Rightarrow> Inl e
                 | Inr X_left \<Rightarrow>
                 (case mask_select y left_mask of
                   Inl e \<Rightarrow> Inl e
                 | Inr y_left \<Rightarrow>
                 (case build_tree self X_left y_left (depth + 1) of
                   Inl e \<Rightarrow> Inl e
                 | Inr left \<Rightarrow>
                 (case mask_select X right_mask of
                   Inl e \<Rightarrow> Inl e
                 | Inr X_right \<Rightarrow>
                 (case mask_select y right_mask of
                   Inl e \<Rightarrow> Inl e
                 | Inr y_right \<Rightarrow>
                 (case build_tree self X_right y_right (depth + 1) of
                   Inl e \<Rightarrow> Inl e
                 | Inr right \<Rightarrow>
                     Inr (Decision (feature_index bs) (threshold bs) (info_gain bs)
                            left right)))))))))"
  by pat_completeness auto
termination
proof (relation "measure (\<lambda>(self, X, y, depth). length X)")
  show "wf (measure (\<lambda>(self, X, y, depth). length X))" by simp
next
  fix self :: classifier and X y and depth :: nat and x2 bs lm rm X_left y_left
  assume "best_split X y = Inr x2" "x2 = Some bs"
    "lm = map (\<lambda>v. v \<le> threshold bs) (column X (feature_index bs))"
    "mask_select X lm = Inr X_left"
  then show "((self, X_left, y_left, depth + 1), self, X, y, depth)
               \<in> measure (\<lambda>(self, X, y, depth). length X)"
    using best_split_separates [of X y bs] separates_left_shorter by simp
next
  fix self :: classifier and X y and depth :: nat and x2 bs lm rm X_right y_right
  assume "best_split X y = Inr x2" "x2 = Some bs"
    "lm = map (\<lambda>v. v \<le> threshold bs) (column X (feature_index bs))"
    "rm = map Not lm" "mask_select X rm = Inr X_right"
  then show "((self, X_right, y_right, depth + 1), self, X, y, depth)
               \<in> measure (\<lambda>(self, X, y, depth). length X)"
    using best_split_separates [of X y bs] separates_right_shorter by simp
qed

declare build_tree.simps [simp del]

subsection \<open>Training and prediction\<close>

definition fit :: "classifier \<Rightarrow> real list list \<Rightarrow> int list \<Rightarrow> error + classifier" where
  "fit self X y =
     (case build_tree self X y 0 of
        Inl e \<Rightarrow> Inl e
      | Inr t \<Rightarrow>
          Inr (self\<lparr>n_classes := Some (length (unique y)), n_features := Some (shape1 X),
                     root_node := Some t\<rparr>))"

text \<open>
  \<open>predict_single\<close>: \<open>x[node.feature_index]\<close> raises IndexError when the index is
  not below the length of \<open>x\<close>; nothing else is checked.
\<close>

fun predict_single :: "real list \<Rightarrow> node \<Rightarrow> error + int" where
  "predict_single x (Leaf v) = Inr v"
| "predict_single x (Decision fi th g left right) =
     (if length x \<le> fi then Inl IndexError
      else if x ! fi \<le> th then predict_single x left
      else predict_single x right)"

text \<open>
  \<open>predict\<close> maps \<open>predict_single\<close> over the rows with the stored root; before
  \<open>fit\<close> the root is None, and reading its \<open>value\<close> raises AttributeError.
\<close>

fun predict_rows :: "node option \<Rightarrow> real list list \<Rightarrow> error + int list" where
  "predict_rows r [] = Inr []"
| "predict_rows r (x # xs) =
     (case r of
        None \<Rightarrow> Inl AttributeError
      | Some n \<Rightarrow>
          (case predict_single x n of
             Inl e \<Rightarrow> Inl e
           | Inr v \<Rightarrow> (case predict_rows r xs of Inl e \<Rightarrow> Inl e | Inr vs \<Rightarrow> Inr (v # vs))))"

definition predict :: "classifier \<Rightarrow> real list list \<Rightarrow> error + int list" where
  "predict self Xq = predict_rows (root_node self) Xq"

section \<open>The program on a machine\<close>

text \<open>
  The functions above compute in exact real arithmetic and let \<open>np.bincount\<close> obtain
  every count array it asks for. The notebook runs in double precision and in finite
  memory, and both show in its results: a gain can be rounded below 0, two gains that
  are equal as real numbers can be rounded to different doubles, and \<open>np.bincount\<close>
  fails when it cannot allocate \<open>max(y) + 1\<close> counters. The functions of this section
  are the same code with the machine as a parameter: \<open>rnd\<close> maps the exact result of
  one arithmetic operation to the double the machine stores, \<open>np_log2\<close> is the
  \<open>np.log2\<close> of the machine, and \<open>counters\<close> is the largest number of counters that
  an allocation of the process obtains.
\<close>

record machine =
  rnd :: "real \<Rightarrow> real"
  np_log2 :: "real \<Rightarrow> real"
  counters :: nat

text \<open>
  IEEE 754 binary64 rounding, to the nearest double and to the even significand in a
  tie, for the normal range: a real number \<open>x\<close> with \<open>2^e \<le> |x| < 2^(e+1)\<close> is rounded
  to a multiple of \<open>2^(e-52)\<close>. Overflow and subnormal numbers are not modelled; the
  numbers of the notebook are far from both.
\<close>

definition round_half_even :: "real \<Rightarrow> int" where
  "round_half_even r =
     (let f = \<lfloor>r\<rfloor>; d = r - of_int f
      in if d < 1/2 then f else if 1/2 < d then f + 1 else if even f then f else f + 1)"

definition double_round :: "real \<Rightarrow> real" where
  "double_round x =
     (if x = 0 then 0
      else
        let ulp = 2 powr (of_int \<lfloor>log 2 \<bar>x\<bar>\<rfloor> - 52)
        in of_int (round_half_even (x / ulp)) * ulp)"

text \<open>
  The machine of the notebook: every operation is rounded to a double, and \<open>np.log2\<close>
  returns the double nearest to the logarithm (at a power of two that is the exact
  logarithm). The exact machine rounds nothing; on it the functions of this section
  compute what the functions above compute.
\<close>

definition double_machine :: "nat \<Rightarrow> machine" where
  "double_machine cap =
     \<lparr>rnd = double_round, np_log2 = (\<lambda>x. double_round (log 2 x)), counters = cap\<rparr>"

definition exact_machine :: "nat \<Rightarrow> machine" where
  "exact_machine cap = \<lparr>rnd = (\<lambda>x. x), np_log2 = log 2, counters = cap\<rparr>"

subsection \<open>Impurity evaluator and split search\<close>

text \<open>
  \<open>entropy\<close>: the quotient of the two lengths, the product with the logarithm and the
  subtraction from \<open>entropy\<close> are one rounded operation each.
\<close>

definition entropy_env :: "machine \<Rightarrow> int list \<Rightarrow> real" where
  "entropy_env m y =
     fold (\<lambda>cls e.
             let p = rnd m (real (length (filter (\<lambda>v. v = cls) y)) / real (length y))
             in rnd m (e - rnd m (p * np_log2 m p)))
       (unique y) 0"

definition information_gain_env ::
  "machine \<Rightarrow> int list \<Rightarrow> int list \<Rightarrow> int list \<Rightarrow> error + real" where
  "information_gain_env m parent left_child right_child =
     (if parent = [] then Inl ZeroDivisionError
      else
        let weight_left = rnd m (real (length left_child) / real (length parent));
            weight_right = rnd m (real (length right_child) / real (length parent))
        in Inr (rnd m (entropy_env m parent -
                  rnd m (rnd m (weight_left * entropy_env m left_child) +
                         rnd m (weight_right * entropy_env m right_child)))))"

fun threshold_loop_env ::
  "machine \<Rightarrow> real list \<Rightarrow> int list \<Rightarrow> nat \<Rightarrow> real list \<Rightarrow> search_state \<Rightarrow>
     error + search_state"
where
  "threshold_loop_env m feature_values y fi [] st = Inr st"
| "threshold_loop_env m feature_values y fi (th # ths) st =
     (let left_mask = map (\<lambda>v. v \<le> th) feature_values;
          right_mask = map Not left_mask
      in case mask_select y left_mask of
           Inl e \<Rightarrow> Inl e
         | Inr y_left \<Rightarrow>
             if length y_left = 0 then threshold_loop_env m feature_values y fi ths st
             else
               (case mask_select y right_mask of
                  Inl e \<Rightarrow> Inl e
                | Inr y_right \<Rightarrow>
                    if length y_right = 0
                    then threshold_loop_env m feature_values y fi ths st
                    else
                      (case information_gain_env m y y_left y_right of
                         Inl e \<Rightarrow> Inl e
                       | Inr gain \<Rightarrow>
                           if gain > fst st
                           then threshold_loop_env m feature_values y fi ths
                                  (gain,
                                   Some \<lparr>feature_index = fi, threshold = th,
                                         info_gain = gain\<rparr>)
                           else threshold_loop_env m feature_values y fi ths st)))"

fun feature_loop_env ::
  "machine \<Rightarrow> real list list \<Rightarrow> int list \<Rightarrow> nat list \<Rightarrow> search_state \<Rightarrow>
     error + search_state"
where
  "feature_loop_env m X y [] st = Inr st"
| "feature_loop_env m X y (fi # fis) st =
     (case threshold_loop_env m (column X fi) y fi (unique (column X fi)) st of
        Inl e \<Rightarrow> Inl e
      | Inr st' \<Rightarrow> feature_loop_env m X y fis st')"

definition best_split_env ::
  "machine \<Rightarrow> real list list \<Rightarrow> int list \<Rightarrow> error + split_info option" where
  "best_split_env m X y =
     (case feature_loop_env m X y [0..<shape1 X] (-1, None) of
        Inl e \<Rightarrow> Inl e
      | Inr st \<Rightarrow> Inr (snd st))"

subsection \<open>Tree builder and training\<close>

text \<open>
  \<open>np.bincount\<close> first rejects a negative entry with ValueError. It then creates the
  array of \<open>max(y) + 1\<close> counters of eight bytes: NumPy raises ValueError when the
  size in bytes exceeds the largest array size, \<open>2^63 - 1\<close>, and MemoryError when the
  allocation fails.
\<close>

definition bincount_env :: "machine \<Rightarrow> int list \<Rightarrow> error + nat list" where
  "bincount_env m y =
     (if list_ex (\<lambda>v. v < 0) y then Inl ValueError
      else if y = [] then Inr []
      else
        let ans_size = Max (set y) + 1
        in if 2 ^ 60 \<le> ans_size then Inl ValueError
           else if int (counters m) < ans_size then Inl MemoryError
           else Inr (map (\<lambda>i. count_list y (int i)) [0..<nat ans_size]))"

definition leaf_value_env :: "machine \<Rightarrow> int list \<Rightarrow> error + int" where
  "leaf_value_env m y =
     (case bincount_env m y of
        Inl e \<Rightarrow> Inl e
      | Inr counts \<Rightarrow> (case argmax counts of Inl e \<Rightarrow> Inl e | Inr i \<Rightarrow> Inr (int i)))"

definition make_leaf_env :: "machine \<Rightarrow> int list \<Rightarrow> error + node" where
  "make_leaf_env m y = (case leaf_value_env m y of Inl e \<Rightarrow> Inl e | Inr v \<Rightarrow> Inr (Leaf v))"

lemma threshold_loop_env_separating:
  "threshold_loop_env m (column X fi) y fi ths st = Inr st' \<Longrightarrow> separating_state X st \<Longrightarrow>
     separating_state X st'"
proof (induction ths arbitrary: st)
  case Nil
  then show ?case by simp
next
  case (Cons th ths)
  let ?lm = "map (\<lambda>v. v \<le> th) (column X fi)"
  from Cons.prems(1) obtain yl where yl: "mask_select y ?lm = Inr yl"
    by (auto simp: Let_def split: sum.splits)
  show ?case
  proof (cases "length yl = 0")
    case True
    with Cons yl show ?thesis by (simp add: Let_def)
  next
    case nl: False
    from Cons.prems(1) yl nl obtain yr where yr: "mask_select y (map Not ?lm) = Inr yr"
      by (auto simp: Let_def split: sum.splits)
    show ?thesis
    proof (cases "length yr = 0")
      case True
      with Cons yl yr nl show ?thesis by (simp add: Let_def)
    next
      case nr: False
      from Cons.prems(1) yl yr nl nr obtain g
        where g: "information_gain_env m y yl yr = Inr g"
        by (auto simp: Let_def split: sum.splits)
      have sep: "separates X fi th"
        using mask_select_nonempty [OF yl] mask_select_nonempty [OF yr] nl nr
        unfolding separates_iff set_right_mask by blast
      show ?thesis
      proof (cases "g > fst st")
        case True
        have "separating_state X
                (g, Some \<lparr>feature_index = fi, threshold = th, info_gain = g\<rparr>)"
          using sep by (simp add: separating_state_def)
        with Cons.IH Cons.prems(1) yl yr nl nr g True show ?thesis
          by (simp add: Let_def)
      next
        case False
        with Cons yl yr nl nr g show ?thesis by (simp add: Let_def)
      qed
    qed
  qed
qed

lemma feature_loop_env_separating:
  "feature_loop_env m X y fis st = Inr st' \<Longrightarrow> separating_state X st \<Longrightarrow>
     separating_state X st'"
proof (induction fis arbitrary: st)
  case Nil
  then show ?case by simp
next
  case (Cons fi fis)
  from Cons.prems(1) obtain st1
    where st1: "threshold_loop_env m (column X fi) y fi (unique (column X fi)) st = Inr st1"
      and rest: "feature_loop_env m X y fis st1 = Inr st'"
    by (auto split: sum.splits)
  from threshold_loop_env_separating [OF st1 Cons.prems(2)] Cons.IH [OF rest]
  show ?case by simp
qed

lemma best_split_env_separates:
  "best_split_env m X y = Inr (Some bs) \<Longrightarrow>
     separates X (feature_index bs) (threshold bs)"
proof -
  assume a: "best_split_env m X y = Inr (Some bs)"
  then obtain st where st: "feature_loop_env m X y [0..<shape1 X] (-1, None) = Inr st"
    and bs: "snd st = Some bs"
    by (auto simp: best_split_env_def split: sum.splits)
  have "separating_state X (-1, None)" by (simp add: separating_state_def)
  from feature_loop_env_separating [OF st this] bs show ?thesis
    by (simp add: separating_state_def)
qed

function build_tree_env ::
  "machine \<Rightarrow> classifier \<Rightarrow> real list list \<Rightarrow> int list \<Rightarrow> nat \<Rightarrow> error + node"
where
  "build_tree_env m self X y depth =
     (if stopping self X y depth then make_leaf_env m y
      else
        (case best_split_env m X y of
           Inl e \<Rightarrow> Inl e
         | Inr None \<Rightarrow> make_leaf_env m y
         | Inr (Some bs) \<Rightarrow>
             let left_mask = map (\<lambda>v. v \<le> threshold bs) (column X (feature_index bs));
                 right_mask = map Not left_mask
             in (case mask_select X left_mask of
                   Inl e \<Rightarrow> Inl e
                 | Inr X_left \<Rightarrow>
                 (case mask_select y left_mask of
                   Inl e \<Rightarrow> Inl e
                 | Inr y_left \<Rightarrow>
                 (case build_tree_env m self X_left y_left (depth + 1) of
                   Inl e \<Rightarrow> Inl e
                 | Inr left \<Rightarrow>
                 (case mask_select X right_mask of
                   Inl e \<Rightarrow> Inl e
                 | Inr X_right \<Rightarrow>
                 (case mask_select y right_mask of
                   Inl e \<Rightarrow> Inl e
                 | Inr y_right \<Rightarrow>
                 (case build_tree_env m self X_right y_right (depth + 1) of
                   Inl e \<Rightarrow> Inl e
                 | Inr right \<Rightarrow>
                     Inr (Decision (feature_index bs) (threshold bs) (info_gain bs)
                            left right)))))))))"
  by pat_completeness auto
termination
proof (relation "measure (\<lambda>(m, self, X, y, depth). length X)")
  show "wf (measure (\<lambda>(m, self, X, y, depth). length X))" by simp
next
  fix m :: machine and self :: classifier and X y and depth :: nat
    and x2 bs lm rm X_left y_left
  assume "best_split_env m X y = Inr x2" "x2 = Some bs"
    "lm = map (\<lambda>v. v \<le> threshold bs) (column X (feature_index bs))"
    "mask_select X lm = Inr X_left"
  then show "((m, self, X_left, y_left, depth + 1), m, self, X, y, depth)
               \<in> measure (\<lambda>(m, self, X, y, depth). length X)"
    using best_split_env_separates [of m X y bs] separates_left_shorter by simp
next
  fix m :: machine and self :: classifier and X y and depth :: nat
    and x2 bs lm rm X_right y_right
  assume "best_split_env m X y = Inr x2" "x2 = Some bs"
    "lm = map (\<lambda>v. v \<le> threshold bs) (column X (feature_index bs))"
    "rm = map Not lm" "mask_select X rm = Inr X_right"
  then show "((m, self, X_right, y_right, depth + 1), m, self, X, y, depth)
               \<in> measure (\<lambda>(m, self, X, y, depth). length X)"
    using best_split_env_separates [of m X y bs] separates_right_shorter by simp
qed

declare build_tree_env.simps [simp del]

definition fit_env ::
  "machine \<Rightarrow> classifier \<Rightarrow> real list list \<Rightarrow> int list \<Rightarrow> error + classifier" where
  "fit_env m self X y =
     (case build_tree_env m self X y 0 of
        Inl e \<Rightarrow> Inl e
      | Inr t \<Rightarrow>
          Inr (self\<lparr>n_classes := Some (length (unique y)), n_features := Some (shape1 X),
                     root_node := Some t\<rparr>))"

section \<open>Notions used in the properties\<close>

subsection \<open>The split search as one pass over the candidates\<close>

text \<open>
  The candidates in the order the two loops visit them: features ascending, and for
  each feature the distinct values of its column ascending.
\<close>

definition candidates :: "real list list \<Rightarrow> (nat \<times> real) list" where
  "candidates X =
     concat (map (\<lambda>fi. map (\<lambda>th. (fi, th)) (unique (column X fi))) [0..<shape1 X])"

text \<open>The gain the loop body computes for the candidate \<open>(fi, th)\<close>.\<close>

definition gain_at :: "real list list \<Rightarrow> int list \<Rightarrow> nat \<Rightarrow> real \<Rightarrow> real" where
  "gain_at X y fi th =
     (let left_mask = map (\<lambda>v. v \<le> th) (column X fi);
          y_left = select y left_mask;
          y_right = select y (map Not left_mask)
      in entropy y -
           (real (length y_left) / real (length y) * entropy y_left +
            real (length y_right) / real (length y) * entropy y_right))"

text \<open>One iteration of the loop body, when \<open>y\<close> is as long as \<open>X\<close>.\<close>

definition step :: "real list list \<Rightarrow> int list \<Rightarrow> nat \<times> real \<Rightarrow> search_state \<Rightarrow> search_state" where
  "step X y c st =
     (if separates X (fst c) (snd c) \<and> gain_at X y (fst c) (snd c) > fst st
      then (gain_at X y (fst c) (snd c),
            Some \<lparr>feature_index = fst c, threshold = snd c,
                  info_gain = gain_at X y (fst c) (snd c)\<rparr>)
      else st)"

text \<open>
  \<open>chosen_first X y cs bs\<close>: the split \<open>bs\<close> is a candidate of the list \<open>cs\<close>, every
  separating candidate before it has a smaller gain, and every separating candidate
  after it has a gain that is not larger.
\<close>

definition chosen_first ::
  "real list list \<Rightarrow> int list \<Rightarrow> (nat \<times> real) list \<Rightarrow> split_info \<Rightarrow> bool" where
  "chosen_first X y cs bs =
     (\<exists>pre post. cs = pre @ (feature_index bs, threshold bs) # post \<and>
        (\<forall>c\<in>set pre. separates X (fst c) (snd c) \<longrightarrow>
                       gain_at X y (fst c) (snd c) < info_gain bs) \<and>
        (\<forall>c\<in>set post. separates X (fst c) (snd c) \<longrightarrow>
                        gain_at X y (fst c) (snd c) \<le> info_gain bs))"

text \<open>
  The invariant of the pass: after the candidates \<open>cs\<close>, started with the gain \<open>b0\<close>
  and no split, the state either still has no split, and then no separating candidate
  of \<open>cs\<close> has a gain above \<open>b0\<close>, or its split is the first of \<open>cs\<close> with the
  largest gain, which is above \<open>b0\<close>.
\<close>

definition search_inv ::
  "real list list \<Rightarrow> int list \<Rightarrow> real \<Rightarrow> (nat \<times> real) list \<Rightarrow> search_state \<Rightarrow> bool" where
  "search_inv X y b0 cs st =
     (case snd st of
        None \<Rightarrow>
          fst st = b0 \<and>
          (\<forall>c\<in>set cs. separates X (fst c) (snd c) \<longrightarrow> gain_at X y (fst c) (snd c) \<le> b0)
      | Some bs \<Rightarrow>
          fst st = info_gain bs \<and>
          info_gain bs = gain_at X y (feature_index bs) (threshold bs) \<and>
          separates X (feature_index bs) (threshold bs) \<and>
          b0 < info_gain bs \<and>
          chosen_first X y cs bs)"

subsection \<open>Majority label, depth and leaves\<close>

text \<open>
  The majority label of \<open>y\<close>, with ties going to the smallest label: \<open>v\<close> occurs in
  \<open>y\<close>, no label occurs more often, and every label that occurs as often is at least
  \<open>v\<close>.
\<close>

definition majority_label :: "int list \<Rightarrow> int \<Rightarrow> bool" where
  "majority_label y v =
     (v \<in> set y \<and> (\<forall>c. count_list y c \<le> count_list y v) \<and>
      (\<forall>c. count_list y c = count_list y v \<longrightarrow> v \<le> c))"

text \<open>The largest depth of a leaf below a node, the node itself being at depth 0.\<close>

fun height :: "node \<Rightarrow> nat" where
  "height (Leaf v) = 0"
| "height (Decision fi th g left right) = Suc (max (height left) (height right))"

text \<open>
  The leaves of a tree with the training rows that reach them: the rows and labels
  \<open>(X, y)\<close> arrive at the node at depth \<open>d\<close>, and a decision node passes on the rows
  with \<open>x[feature_index] <= threshold\<close> to the left and the others to the right. Each
  entry is the depth of a leaf with its rows and labels.
\<close>

fun leaf_subsets ::
  "node \<Rightarrow> real list list \<Rightarrow> int list \<Rightarrow> nat \<Rightarrow> (nat \<times> real list list \<times> int list) list"
where
  "leaf_subsets (Leaf v) X y d = [(d, X, y)]"
| "leaf_subsets (Decision fi th g left right) X y d =
     (let left_mask = map (\<lambda>v. v \<le> th) (column X fi);
          right_mask = map Not left_mask
      in leaf_subsets left (select X left_mask) (select y left_mask) (d + 1) @
         leaf_subsets right (select X right_mask) (select y right_mask) (d + 1))"

subsection \<open>Feature indices a prediction reads\<close>

text \<open>Every decision node of the tree reads a feature index below \<open>d\<close>.\<close>

fun features_below :: "nat \<Rightarrow> node \<Rightarrow> bool" where
  "features_below d (Leaf v) = True"
| "features_below d (Decision fi th g left right) =
     (fi < d \<and> features_below d left \<and> features_below d right)"

text \<open>
  The feature indices of the decision nodes that \<open>predict_single x\<close> visits, in the
  order of the visit.
\<close>

fun traversed :: "real list \<Rightarrow> node \<Rightarrow> nat list" where
  "traversed x (Leaf v) = []"
| "traversed x (Decision fi th g left right) =
     fi # (if length x \<le> fi then []
           else if x ! fi \<le> th then traversed x left
           else traversed x right)"

subsection \<open>The split search of the machine as one pass over the candidates\<close>

text \<open>The gain the loop body computes on the machine for the candidate \<open>(fi, th)\<close>.\<close>

definition gain_env :: "machine \<Rightarrow> real list list \<Rightarrow> int list \<Rightarrow> nat \<Rightarrow> real \<Rightarrow> real" where
  "gain_env m X y fi th =
     (let left_mask = map (\<lambda>v. v \<le> th) (column X fi);
          y_left = select y left_mask;
          y_right = select y (map Not left_mask);
          weight_left = rnd m (real (length y_left) / real (length y));
          weight_right = rnd m (real (length y_right) / real (length y))
      in rnd m (entropy_env m y -
           rnd m (rnd m (weight_left * entropy_env m y_left) +
                  rnd m (weight_right * entropy_env m y_right))))"

definition step_env ::
  "machine \<Rightarrow> real list list \<Rightarrow> int list \<Rightarrow> nat \<times> real \<Rightarrow> search_state \<Rightarrow> search_state" where
  "step_env m X y c st =
     (if separates X (fst c) (snd c) \<and> gain_env m X y (fst c) (snd c) > fst st
      then (gain_env m X y (fst c) (snd c),
            Some \<lparr>feature_index = fst c, threshold = snd c,
                  info_gain = gain_env m X y (fst c) (snd c)\<rparr>)
      else st)"

text \<open>
  \<open>chosen_first_env m X y cs bs\<close>: the split \<open>bs\<close> is a candidate of the list \<open>cs\<close>,
  every separating candidate before it has a smaller gain on the machine, and every
  separating candidate after it has a gain on the machine that is not larger.
\<close>

definition chosen_first_env ::
  "machine \<Rightarrow> real list list \<Rightarrow> int list \<Rightarrow> (nat \<times> real) list \<Rightarrow> split_info \<Rightarrow> bool" where
  "chosen_first_env m X y cs bs =
     (\<exists>pre post. cs = pre @ (feature_index bs, threshold bs) # post \<and>
        (\<forall>c\<in>set pre. separates X (fst c) (snd c) \<longrightarrow>
                       gain_env m X y (fst c) (snd c) < info_gain bs) \<and>
        (\<forall>c\<in>set post. separates X (fst c) (snd c) \<longrightarrow>
                        gain_env m X y (fst c) (snd c) \<le> info_gain bs))"

text \<open>The invariant of the pass, as \<open>search_inv\<close> with the gains of the machine.\<close>

definition search_inv_env ::
  "machine \<Rightarrow> real list list \<Rightarrow> int list \<Rightarrow> real \<Rightarrow> (nat \<times> real) list \<Rightarrow> search_state \<Rightarrow>
     bool" where
  "search_inv_env m X y b0 cs st =
     (case snd st of
        None \<Rightarrow>
          fst st = b0 \<and>
          (\<forall>c\<in>set cs. separates X (fst c) (snd c) \<longrightarrow>
                        gain_env m X y (fst c) (snd c) \<le> b0)
      | Some bs \<Rightarrow>
          fst st = info_gain bs \<and>
          info_gain bs = gain_env m X y (feature_index bs) (threshold bs) \<and>
          separates X (feature_index bs) (threshold bs) \<and>
          b0 < info_gain bs \<and>
          chosen_first_env m X y cs bs)"

subsection \<open>Labels and logarithms on the machine\<close>

text \<open>
  The labels \<open>np.bincount\<close> accepts on the machine: none is negative, and the largest
  needs no more counters than an array can have and than the process obtains.
\<close>

definition labels_fit :: "machine \<Rightarrow> int list \<Rightarrow> bool" where
  "labels_fit m y = list_all (\<lambda>v. 0 \<le> v \<and> v + 1 < 2 ^ 60 \<and> v < int (counters m)) y"

text \<open>The arguments \<open>np.log2\<close> receives during \<open>entropy y\<close> on the machine, in order.\<close>

definition log2_arguments_env :: "machine \<Rightarrow> int list \<Rightarrow> real list" where
  "log2_arguments_env m y =
     map (\<lambda>cls. rnd m (real (length (filter (\<lambda>v. v = cls) y)) / real (length y)))
       (unique y)"

section \<open>Properties\<close>

subsection \<open>Entropy\<close>

lemma set_unique [simp]: "set (unique xs) = set xs"
  by (simp add: unique_def)

lemma distinct_unique [simp]: "distinct (unique xs)"
  by (simp add: unique_def)

lemma sorted_unique [simp]: "sorted (unique xs)"
  by (simp add: unique_def)

lemma fold_minus_sum_list:
  "fold (\<lambda>c e. e - f c) cs (a::real) = a - sum_list (map f cs)"
  by (induction cs arbitrary: a) auto

lemma entropy_sum:
  "entropy y = - (\<Sum>c\<in>set y. proportion y c * log 2 (proportion y c))"
proof -
  have "entropy y = - sum_list (map (\<lambda>c. proportion y c * log 2 (proportion y c)) (unique y))"
    by (simp add: entropy_def fold_minus_sum_list)
  also have "sum_list (map (\<lambda>c. proportion y c * log 2 (proportion y c)) (unique y))
      = (\<Sum>c\<in>set (unique y). proportion y c * log 2 (proportion y c))"
    by (rule sum.distinct_set_conv_list [symmetric]) simp
  finally show ?thesis by simp
qed

lemma proportion_pos: "c \<in> set y \<Longrightarrow> 0 < proportion y c"
proof -
  assume c: "c \<in> set y"
  then have "filter (\<lambda>v. v = c) y \<noteq> []" by (auto simp: filter_empty_conv)
  moreover from c have "y \<noteq> []" by auto
  ultimately show ?thesis by (simp add: proportion_def)
qed

lemma proportion_le_1: "proportion y c \<le> 1"
proof (cases "y = []")
  case True then show ?thesis by (simp add: proportion_def)
next
  case False
  have "length (filter (\<lambda>v. v = c) y) \<le> length y" by simp
  with False show ?thesis by (simp add: proportion_def)
qed

lemma entropy_term_nonneg: "c \<in> set y \<Longrightarrow> proportion y c * log 2 (proportion y c) \<le> 0"
proof -
  assume c: "c \<in> set y"
  have "log 2 (proportion y c) \<le> 0"
    using proportion_pos [OF c] proportion_le_1 [of y c] by simp
  then show ?thesis using proportion_pos [OF c] by (simp add: mult_le_0_iff)
qed

lemma entropy_nonneg: "0 \<le> entropy y"
proof -
  have "(\<Sum>c\<in>set y. proportion y c * log 2 (proportion y c)) \<le> 0"
    by (rule sum_nonpos) (simp add: entropy_term_nonneg)
  then show ?thesis by (simp add: entropy_sum)
qed

lemma log2_half: "log 2 (1/2) = -1"
  by (simp add: log_divide)

subsection \<open>The information gain of a split is not negative\<close>

lemma length_filter_count: "length (filter (\<lambda>v. v = c) y) = count_list y c"
  by (induction y) auto

lemma proportion_count: "proportion y c = real (count_list y c) / real (length y)"
  by (simp add: proportion_def length_filter_count)

lemma proportion_absent: "c \<notin> set y \<Longrightarrow> proportion y c = 0"
  by (simp add: proportion_count count_list_0_iff)

lemma sum_proportion:
  assumes "y \<noteq> []" "finite S" "set y \<subseteq> S"
  shows "(\<Sum>c\<in>S. proportion y c) = 1"
proof -
  have "(\<Sum>c\<in>S. proportion y c) = real (\<Sum>c\<in>S. count_list y c) / real (length y)"
    by (simp add: proportion_count sum_divide_distrib)
  also have "(\<Sum>c\<in>S. count_list y c) = length y"
    using assms by (simp add: sum_count_set)
  finally show ?thesis using assms by simp
qed

lemma entropy_sum_superset:
  assumes "finite S" "set y \<subseteq> S"
  shows "entropy y = - (\<Sum>c\<in>S. proportion y c * log 2 (proportion y c))"
proof -
  have "(\<Sum>c\<in>set y. proportion y c * log 2 (proportion y c))
      = (\<Sum>c\<in>S. proportion y c * log 2 (proportion y c))"
    using assms by (intro sum.mono_neutral_left) (auto simp: proportion_absent)
  then show ?thesis by (simp add: entropy_sum)
qed

lemma gibbs_term:
  assumes "0 \<le> p" "0 < q"
  shows "p * log 2 q - p * log 2 p \<le> (q - p) / ln 2"
proof (cases "p = 0")
  case True
  with assms show ?thesis by simp
next
  case False
  with assms have p: "0 < p" by simp
  have "log 2 q - log 2 p = ln (q / p) / ln 2"
    using p assms by (simp add: log_def ln_div diff_divide_distrib)
  also have "\<dots> \<le> (q / p - 1) / ln 2"
    using ln_le_minus_one [of "q / p"] p assms by (simp add: divide_right_mono)
  finally have "log 2 q - log 2 p \<le> (q / p - 1) / ln 2" .
  then have "p * (log 2 q - log 2 p) \<le> p * ((q / p - 1) / ln 2)"
    by (rule mult_left_mono) (use p in simp)
  also have "p * ((q / p - 1) / ln 2) = (q - p) / ln 2"
    using p by (simp add: field_simps)
  finally show ?thesis by (simp add: algebra_simps)
qed

lemma gibbs:
  assumes "z \<noteq> []" "set z \<subseteq> set y"
  shows "entropy z \<le> - (\<Sum>c\<in>set y. proportion z c * log 2 (proportion y c))"
proof -
  from assms have y: "y \<noteq> []" by auto
  have "(\<Sum>c\<in>set y. proportion z c * log 2 (proportion y c)
                    - proportion z c * log 2 (proportion z c))
      \<le> (\<Sum>c\<in>set y. (proportion y c - proportion z c) / ln 2)"
  proof (rule sum_mono)
    fix c assume "c \<in> set y"
    then have "0 < proportion y c" by (rule proportion_pos)
    moreover have "0 \<le> proportion z c" by (simp add: proportion_def)
    ultimately show "proportion z c * log 2 (proportion y c)
                    - proportion z c * log 2 (proportion z c)
                    \<le> (proportion y c - proportion z c) / ln 2"
      by (simp add: gibbs_term)
  qed
  also have "\<dots> = ((\<Sum>c\<in>set y. proportion y c) - (\<Sum>c\<in>set y. proportion z c)) / ln 2"
    by (simp add: sum_subtractf sum_divide_distrib diff_divide_distrib)
  also have "\<dots> = 0"
    using sum_proportion [OF y, of "set y"] sum_proportion [OF assms(1), of "set y"] assms(2)
    by simp
  finally have "(\<Sum>c\<in>set y. proportion z c * log 2 (proportion y c))
      - (\<Sum>c\<in>set y. proportion z c * log 2 (proportion z c)) \<le> 0"
    by (simp add: sum_subtractf)
  moreover have "entropy z = - (\<Sum>c\<in>set y. proportion z c * log 2 (proportion z c))"
    using assms(2) by (simp add: entropy_sum_superset)
  ultimately show ?thesis by simp
qed

lemma count_select_partition:
  "length msk = length y \<Longrightarrow>
     count_list (select y msk) c + count_list (select y (map Not msk)) c = count_list y c"
  unfolding select_def by (induction msk y rule: list_induct2) auto

lemma set_select_subset: "set (select y msk) \<subseteq> set y"
  unfolding select_def by (auto dest: set_zip_leftD)

lemma weighted_entropy_le:
  assumes "set z \<subseteq> set y"
  shows "real (length z) * entropy z
       \<le> - (\<Sum>c\<in>set y. real (count_list z c) * log 2 (proportion y c))"
proof (cases "z = []")
  case True
  then show ?thesis by simp
next
  case False
  have "real (length z) * entropy z
      \<le> real (length z) * - (\<Sum>c\<in>set y. proportion z c * log 2 (proportion y c))"
    by (rule mult_left_mono [OF gibbs [OF False assms]]) simp
  also have "\<dots> = - (\<Sum>c\<in>set y. real (length z) * (proportion z c * log 2 (proportion y c)))"
    by (simp add: sum_distrib_left)
  also have "\<dots> = - (\<Sum>c\<in>set y. real (count_list z c) * log 2 (proportion y c))"
    using False by (simp add: proportion_count)
  finally show ?thesis .
qed

lemma split_entropy_le:
  assumes "length msk = length y" "y \<noteq> []"
  shows "real (length (select y msk)) / real (length y) * entropy (select y msk) +
         real (length (select y (map Not msk))) / real (length y)
           * entropy (select y (map Not msk))
       \<le> entropy y"
proof -
  let ?l = "select y msk" and ?r = "select y (map Not msk)"
  let ?n = "real (length y)"
  have n: "0 < ?n" using assms(2) by simp
  have "real (length ?l) * entropy ?l + real (length ?r) * entropy ?r
      \<le> - (\<Sum>c\<in>set y. real (count_list ?l c) * log 2 (proportion y c))
        + - (\<Sum>c\<in>set y. real (count_list ?r c) * log 2 (proportion y c))"
    using weighted_entropy_le [of ?l y] weighted_entropy_le [of ?r y]
      set_select_subset [of y msk] set_select_subset [of y "map Not msk"]
    by (simp add: add_mono)
  also have "\<dots> = - (\<Sum>c\<in>set y. (real (count_list ?l c) + real (count_list ?r c))
                                * log 2 (proportion y c))"
    by (simp add: sum.distrib distrib_right)
  also have "\<dots> = - (\<Sum>c\<in>set y. real (count_list y c) * log 2 (proportion y c))"
    using count_select_partition [OF assms(1)]
    by (simp only: of_nat_add [symmetric])
  also have "\<dots> = - (\<Sum>c\<in>set y. ?n * (proportion y c * log 2 (proportion y c)))"
    using n by (simp add: proportion_count)
  also have "\<dots> = ?n * entropy y"
    by (simp add: entropy_sum sum_distrib_left)
  finally have "(real (length ?l) * entropy ?l + real (length ?r) * entropy ?r) / ?n
              \<le> entropy y"
    using n by (simp add: pos_divide_le_eq mult.commute)
  then show ?thesis by (simp add: add_divide_distrib)
qed

subsection \<open>The two loops make one pass over the candidates\<close>

lemma length_column [simp]: "length (column X fi) = length X"
  by (simp add: column_def)

lemma information_gain_select:
  assumes "y \<noteq> []"
  shows "information_gain y (select y (map (\<lambda>v. v \<le> th) (column X fi)))
           (select y (map Not (map (\<lambda>v. v \<le> th) (column X fi))))
         = Inr (gain_at X y fi th)"
  using assms by (simp add: information_gain_def gain_at_def Let_def)

lemma select_nonempty:
  "length msk = length xs \<Longrightarrow> length (select xs msk) \<noteq> 0 \<longleftrightarrow> True \<in> set msk"
  using mask_select_nonempty [of xs msk "select xs msk"]
  by (simp add: mask_select_same_length)

lemma threshold_loop_step:
  assumes "length y = length X"
  shows "threshold_loop (column X fi) y fi (th # ths) st
       = threshold_loop (column X fi) y fi ths (step X y (fi, th) st)"
proof -
  let ?lm = "map (\<lambda>v. v \<le> th) (column X fi)"
  have l: "mask_select y ?lm = Inr (select y ?lm)"
    and r: "mask_select y (map Not ?lm) = Inr (select y (map Not ?lm))"
    using assms by (simp_all add: mask_select_same_length)
  have nl: "length (select y ?lm) \<noteq> 0 \<longleftrightarrow> True \<in> set ?lm"
    by (rule select_nonempty) (simp add: assms)
  have "length (select y (map Not ?lm)) \<noteq> 0 \<longleftrightarrow> True \<in> set (map Not ?lm)"
    by (rule select_nonempty) (simp add: assms)
  then have nr: "length (select y (map Not ?lm)) \<noteq> 0 \<longleftrightarrow> False \<in> set ?lm"
    by (simp only: set_right_mask)
  show ?thesis
  proof (cases "separates X fi th")
    case True
    then have t: "True \<in> set ?lm" "False \<in> set ?lm" by (simp_all add: separates_iff)
    with nl have "select y ?lm \<noteq> []" by auto
    then have "y \<noteq> []" by (auto simp: select_def)
    from information_gain_select [OF this, of th X fi] l r nl nr t True
    show ?thesis by (simp add: Let_def step_def del: set_map)
  next
    case False
    then have "\<not> True \<in> set ?lm \<or> \<not> False \<in> set ?lm" by (simp add: separates_iff)
    with l r nl nr False show ?thesis
      by (auto simp: Let_def step_def simp del: set_map)
  qed
qed

lemma threshold_loop_fold:
  "length y = length X \<Longrightarrow>
     threshold_loop (column X fi) y fi ths st = Inr (fold (\<lambda>th. step X y (fi, th)) ths st)"
proof (induction ths arbitrary: st)
  case Nil
  then show ?case by simp
next
  case (Cons th ths)
  then show ?case by (simp only: threshold_loop_step fold_Cons comp_apply)
qed

lemma feature_loop_fold:
  "length y = length X \<Longrightarrow>
     feature_loop X y fis st
       = Inr (fold (step X y)
               (concat (map (\<lambda>fi. map (\<lambda>th. (fi, th)) (unique (column X fi))) fis)) st)"
proof (induction fis arbitrary: st)
  case Nil
  then show ?case by simp
next
  case (Cons fi fis)
  then show ?case by (simp add: threshold_loop_fold fold_map comp_def)
qed

lemma best_split_fold:
  "length y = length X \<Longrightarrow>
     best_split X y = Inr (snd (fold (step X y) (candidates X) (-1, None)))"
  by (simp add: best_split_def feature_loop_fold candidates_def)

lemma chosen_first_snoc_keep:
  assumes "chosen_first X y cs bs"
    and "separates X (fst c) (snd c) \<longrightarrow> gain_at X y (fst c) (snd c) \<le> info_gain bs"
  shows "chosen_first X y (cs @ [c]) bs"
proof -
  from assms(1) obtain pre post where
    cs: "cs = pre @ (feature_index bs, threshold bs) # post"
    and pre: "\<forall>c\<in>set pre. separates X (fst c) (snd c) \<longrightarrow>
                gain_at X y (fst c) (snd c) < info_gain bs"
    and post: "\<forall>c\<in>set post. separates X (fst c) (snd c) \<longrightarrow>
                gain_at X y (fst c) (snd c) \<le> info_gain bs"
    unfolding chosen_first_def by blast
  have "cs @ [c] = pre @ (feature_index bs, threshold bs) # (post @ [c])"
    using cs by simp
  moreover have "\<forall>d\<in>set (post @ [c]). separates X (fst d) (snd d) \<longrightarrow>
                gain_at X y (fst d) (snd d) \<le> info_gain bs"
    using post assms(2) by auto
  ultimately show ?thesis unfolding chosen_first_def using pre by blast
qed

lemma chosen_first_snoc_new:
  assumes "\<forall>d\<in>set cs. separates X (fst d) (snd d) \<longrightarrow> gain_at X y (fst d) (snd d) < g"
  shows "chosen_first X y (cs @ [c]) \<lparr>feature_index = fst c, threshold = snd c, info_gain = g\<rparr>"
  unfolding chosen_first_def
  by (rule exI [of _ cs], rule exI [of _ "[]"]) (use assms in simp)

lemma chosen_first_bound:
  assumes "chosen_first X y cs bs" "d \<in> set cs" "separates X (fst d) (snd d)"
    "info_gain bs = gain_at X y (feature_index bs) (threshold bs)"
  shows "gain_at X y (fst d) (snd d) \<le> info_gain bs"
proof -
  from assms(1) obtain pre post where
    cs: "cs = pre @ (feature_index bs, threshold bs) # post"
    and pre: "\<forall>c\<in>set pre. separates X (fst c) (snd c) \<longrightarrow>
                gain_at X y (fst c) (snd c) < info_gain bs"
    and post: "\<forall>c\<in>set post. separates X (fst c) (snd c) \<longrightarrow>
                gain_at X y (fst c) (snd c) \<le> info_gain bs"
    unfolding chosen_first_def by blast
  from assms(2) cs consider "d \<in> set pre" | "d = (feature_index bs, threshold bs)"
    | "d \<in> set post" by auto
  then show ?thesis
  proof cases
    case 1 with pre assms(3) show ?thesis by force
  next
    case 2 with assms(4) show ?thesis by simp
  next
    case 3 with post assms(3) show ?thesis by blast
  qed
qed

lemma search_inv_step:
  assumes "search_inv X y b0 cs st"
  shows "search_inv X y b0 (cs @ [c]) (step X y c st)"
proof (cases "separates X (fst c) (snd c) \<and> gain_at X y (fst c) (snd c) > fst st")
  case True
  let ?g = "gain_at X y (fst c) (snd c)"
  have earlier: "\<forall>d\<in>set cs. separates X (fst d) (snd d) \<longrightarrow> gain_at X y (fst d) (snd d) < ?g"
  proof (cases "snd st")
    case None
    with assms True show ?thesis by (fastforce simp: search_inv_def)
  next
    case (Some bs)
    with assms have inv: "fst st = info_gain bs"
      "info_gain bs = gain_at X y (feature_index bs) (threshold bs)"
      "chosen_first X y cs bs"
      by (simp_all add: search_inv_def)
    show ?thesis
    proof (intro ballI impI)
      fix d assume "d \<in> set cs" "separates X (fst d) (snd d)"
      from chosen_first_bound [OF inv(3) this inv(2)] inv(1) True
      show "gain_at X y (fst d) (snd d) < ?g" by simp
    qed
  qed
  have "b0 < ?g"
  proof (cases "snd st")
    case None
    with assms True show ?thesis by (simp add: search_inv_def)
  next
    case (Some bs)
    with assms True show ?thesis by (simp add: search_inv_def)
  qed
  with True chosen_first_snoc_new [OF earlier, of c] show ?thesis
    by (simp add: search_inv_def step_def)
next
  case False
  then have st: "step X y c st = st" unfolding step_def by (simp only: if_False)
  show ?thesis
  proof (cases "snd st")
    case None
    with assms False st show ?thesis by (auto simp: search_inv_def)
  next
    case (Some bs)
    with assms have inv: "fst st = info_gain bs" "chosen_first X y cs bs"
      by (simp_all add: search_inv_def)
    from False inv(1)
    have "separates X (fst c) (snd c) \<longrightarrow> gain_at X y (fst c) (snd c) \<le> info_gain bs"
      by auto
    from chosen_first_snoc_keep [OF inv(2) this] assms Some st show ?thesis
      by (simp add: search_inv_def)
  qed
qed

lemma search_inv_fold:
  "search_inv X y b0 cs (fold (step X y) cs (b0, None))"
proof (induction cs rule: rev_induct)
  case Nil
  show ?case by (simp add: search_inv_def)
next
  case (snoc c cs)
  from search_inv_step [OF snoc] show ?case by simp
qed

text \<open>With rows and labels of the same length, a separating split has a gain of at least 0.\<close>

lemma separates_nonempty: "separates X fi th \<Longrightarrow> X \<noteq> []"
  by (auto simp: separates_def column_def)

lemma gain_at_nonneg:
  assumes "length y = length X" "y \<noteq> []"
  shows "0 \<le> gain_at X y fi th"
  using split_entropy_le [of "map (\<lambda>v. v \<le> th) (column X fi)" y] assms
  by (simp add: gain_at_def Let_def)

subsection \<open>What the split search returns\<close>

lemma set_candidates:
  "set (candidates X) = {(fi, th). fi < shape1 X \<and> th \<in> set (column X fi)}"
  by (auto simp: candidates_def)

lemma distinct_candidates_upto:
  "distinct (concat (map (\<lambda>fi. map (\<lambda>th. (fi, th)) (unique (column X fi))) [0..<d]))"
  by (induction d) (auto simp: distinct_map inj_on_def)

lemma distinct_candidates: "distinct (candidates X)"
  by (simp add: candidates_def distinct_candidates_upto)

lemma chosen_first_mem:
  "chosen_first X y cs bs \<Longrightarrow> (feature_index bs, threshold bs) \<in> set cs"
  by (auto simp: chosen_first_def)

lemma best_split_Some:
  assumes "length y = length X" "best_split X y = Inr (Some bs)"
  shows "info_gain bs = gain_at X y (feature_index bs) (threshold bs)"
    and "separates X (feature_index bs) (threshold bs)"
    and "chosen_first X y (candidates X) bs"
proof -
  from assms have "snd (fold (step X y) (candidates X) (-1, None)) = Some bs"
    by (simp add: best_split_fold)
  with search_inv_fold [of X y "-1" "candidates X"]
  show "info_gain bs = gain_at X y (feature_index bs) (threshold bs)"
    and "separates X (feature_index bs) (threshold bs)"
    and "chosen_first X y (candidates X) bs"
    by (simp_all add: search_inv_def)
qed

lemma best_split_None:
  assumes "length y = length X" "best_split X y = Inr None"
    "c \<in> set (candidates X)"
  shows "\<not> separates X (fst c) (snd c)"
proof
  assume sep: "separates X (fst c) (snd c)"
  from assms have "snd (fold (step X y) (candidates X) (-1, None)) = None"
    by (simp add: best_split_fold)
  with search_inv_fold [of X y "-1" "candidates X"] assms(3) sep
  have "gain_at X y (fst c) (snd c) \<le> -1"
    by (auto simp: search_inv_def)
  moreover from sep assms(1) have "y \<noteq> []" using separates_nonempty by fastforce
  ultimately show False using gain_at_nonneg [OF assms(1), of "fst c" "snd c"] by simp
qed

lemma best_split_total:
  "length y = length X \<Longrightarrow> (\<exists>bs. best_split X y = Inr (Some bs)) \<or> best_split X y = Inr None"
  by (cases "snd (fold (step X y) (candidates X) (-1, None))") (simp_all add: best_split_fold)

text \<open>
  C8, as the code has it. When the lengths of \<open>X\<close> and \<open>y\<close> agree, the split search
  returns None exactly when no candidate has two non-empty sides; the gain plays no
  part in it. This is the case when \<open>X\<close> has no rows or no columns.
\<close>

theorem best_split_None_iff:
  assumes "length y = length X"
  shows "(best_split X y = Inr None \<longleftrightarrow>
            (\<forall>fi th. fi < shape1 X \<and> th \<in> set (column X fi) \<longrightarrow> \<not> separates X fi th)) \<and>
         (X = [] \<or> shape1 X = 0 \<longrightarrow> best_split X y = Inr None)"
proof -
  have iff: "best_split X y = Inr None \<longleftrightarrow>
            (\<forall>fi th. fi < shape1 X \<and> th \<in> set (column X fi) \<longrightarrow> \<not> separates X fi th)"
  proof
    assume n: "best_split X y = Inr None"
    show "\<forall>fi th. fi < shape1 X \<and> th \<in> set (column X fi) \<longrightarrow> \<not> separates X fi th"
    proof (intro allI impI)
      fix fi th assume "fi < shape1 X \<and> th \<in> set (column X fi)"
      then have "(fi, th) \<in> set (candidates X)" by (simp add: set_candidates)
      from best_split_None [OF assms n this] show "\<not> separates X fi th" by simp
    qed
  next
    assume no: "\<forall>fi th. fi < shape1 X \<and> th \<in> set (column X fi) \<longrightarrow> \<not> separates X fi th"
    show "best_split X y = Inr None"
    proof (rule ccontr)
      assume "best_split X y \<noteq> Inr None"
      with best_split_total [OF assms] obtain bs where s: "best_split X y = Inr (Some bs)"
        by blast
      note bs = best_split_Some [OF assms s]
      from chosen_first_mem [OF bs(3)] no bs(2) show False
        by (simp add: set_candidates)
    qed
  qed
  have "shape1 [] = 0" by (simp add: shape1_def)
  with iff show ?thesis by auto
qed

subsection \<open>Concrete runs\<close>

lemma entropy_pure_examples:
  "entropy [0] = 0" "entropy [1] = 0" "entropy [0, 0] = 0" "entropy [1, 1] = 0"
  by (simp_all add: entropy_def unique_def proportion_def)

lemma entropy_balanced_examples:
  "entropy [0, 1] = 1" "entropy [0, 0, 1, 1] = 1"
  by (simp_all add: entropy_def unique_def proportion_def log2_half)

lemmas eval_defs =
  best_split_def shape1_def column_def unique_def mask_select_def select_def
  information_gain_def Let_def

lemma best_split_two_rows:
  "best_split [[0], [1]] [0, 1] =
     Inr (Some \<lparr>feature_index = 0, threshold = 0, info_gain = 1\<rparr>)"
  by (simp add: eval_defs entropy_pure_examples entropy_balanced_examples)

lemma best_split_zero_gain:
  "best_split [[0], [1], [0], [1]] [0, 0, 1, 1] =
     Inr (Some \<lparr>feature_index = 0, threshold = 0, info_gain = 0\<rparr>)"
  by (simp add: eval_defs entropy_pure_examples entropy_balanced_examples)

lemma best_split_constant_column:
  "best_split [[0], [0]] [0, 1] = Inr None"
  by (simp add: eval_defs)

lemma log2_3_bounds: "1 < log 2 3" "log 2 3 < 2"
proof -
  have "log 2 2 < log 2 3" by (subst log_less_cancel_iff) simp_all
  then show "1 < log 2 3" by simp
  have "log 2 3 < log 2 4" by (subst log_less_cancel_iff) simp_all
  moreover have "log 2 4 = 2" using log_nat_power [of 2 2 2] by simp
  ultimately show "log 2 3 < 2" by simp
qed

lemma entropy_one_third:
  "entropy [0, 1, 1] = log 2 3 - 2/3" "entropy [0, 0, 1] = log 2 3 - 2/3"
  by (simp_all add: entropy_def unique_def proportion_def log_divide field_simps)

lemma entropy_one_third_bounds:
  "0 < entropy [0, 1, 1]" "entropy [0, 1, 1] < 4/3"
  "0 < entropy [0, 0, 1]" "entropy [0, 0, 1] < 4/3"
  unfolding entropy_one_third using log2_3_bounds by linarith+

lemma best_split_four_rows:
  "best_split [[0], [1], [2], [3]] [0, 0, 1, 1] =
     Inr (Some \<lparr>feature_index = 0, threshold = 1, info_gain = 1\<rparr>)"
  using entropy_one_third_bounds
  by (simp add: eval_defs entropy_pure_examples entropy_balanced_examples)

lemma init_simps [simp]:
  "max_depth (init md mss) = md" "min_samples_split (init md mss) = mss"
  "root_node (init md mss) = None"
  by (simp_all add: init_def)

lemmas leaf_defs = make_leaf_def leaf_value_def bincount_def argmax_def stopping_def

lemma build_tree_four_rows:
  "build_tree (init None 2) [[0], [1], [2], [3]] [0, 0, 1, 1] 0 =
     Inr (Decision 0 1 1 (Leaf 0) (Leaf 1))"
proof -
  have l: "build_tree (init None 2) [[0], [1]] [0, 0] (Suc 0) = Inr (Leaf 0)"
    by (subst build_tree.simps) (simp add: leaf_defs unique_def)
  have r: "build_tree (init None 2) [[2], [3]] [1, 1] (Suc 0) = Inr (Leaf 1)"
    by (subst build_tree.simps) (simp add: leaf_defs unique_def)
  show ?thesis
    by (subst build_tree.simps)
      (simp add: best_split_four_rows l r stopping_def unique_def column_def
        mask_select_def select_def Let_def)
qed

theorem best_split_None_iff_witness:
  "length [0, 1::int] = length [[0::real], [0]] \<and>
   best_split [[0], [0]] [0, 1] = Inr None \<and>
   \<not> separates [[0], [0]] 0 0 \<and>
   best_split [] [] = Inr None"
proof -
  have len: "length [0, 1::int] = length [[0::real], [0]]" by simp
  have cand: "0 < shape1 [[0::real], [0]] \<and> 0 \<in> set (column [[0], [0]] 0)"
    by (simp add: shape1_def column_def)
  from best_split_None_iff [OF len] best_split_constant_column cand
  have "\<not> separates [[0], [0]] 0 0" by blast
  moreover from best_split_None_iff [of "[]" "[]"] have "best_split [] [] = Inr None"
    by simp
  ultimately show ?thesis using len best_split_constant_column by blast
qed

text \<open>
  A split with two non-empty sides and the gain 0 is returned: the only other candidate
  leaves the right side empty.
\<close>

theorem best_split_zero_gain_returned:
  "candidates [[0], [1], [0], [1]] = [(0, 0), (0, 1)] \<and>
   gain_at [[0], [1], [0], [1]] [0, 0, 1, 1] 0 0 = 0 \<and>
   \<not> separates [[0], [1], [0], [1]] 0 1 \<and>
   best_split [[0], [1], [0], [1]] [0, 0, 1, 1] =
     Inr (Some \<lparr>feature_index = 0, threshold = 0, info_gain = 0\<rparr>)"
  by (simp add: candidates_def gain_at_def separates_def best_split_zero_gain
      shape1_def column_def unique_def select_def entropy_balanced_examples)

subsection \<open>The tree builder on rows and labels of the same length\<close>

lemma build_tree_leaf_case:
  "stopping self X y depth \<or> best_split X y = Inr None \<Longrightarrow>
     build_tree self X y depth = make_leaf y"
  by (subst build_tree.simps) auto

text \<open>
  The equation of \<open>build_tree\<close> at a node that is split, for rows and labels of the
  same length: the masks fit, both sides are non-empty, shorter than \<open>X\<close>, and again of
  the same length.
\<close>

lemma build_tree_node_case:
  assumes len: "length y = length X"
    and ns: "\<not> stopping self X y depth"
    and bs: "best_split X y = Inr (Some bs)"
  defines "lm \<equiv> map (\<lambda>v. v \<le> threshold bs) (column X (feature_index bs))"
  shows "build_tree self X y depth =
           (case build_tree self (select X lm) (select y lm) (depth + 1) of
              Inl e \<Rightarrow> Inl e
            | Inr left \<Rightarrow>
                (case build_tree self (select X (map Not lm)) (select y (map Not lm))
                        (depth + 1) of
                   Inl e \<Rightarrow> Inl e
                 | Inr right \<Rightarrow>
                     Inr (Decision (feature_index bs) (threshold bs) (info_gain bs)
                            left right)))"
    and "length (select y lm) = length (select X lm)"
    and "length (select y (map Not lm)) = length (select X (map Not lm))"
    and "select y lm \<noteq> []" and "select y (map Not lm) \<noteq> []"
    and "length (select X lm) < length X" and "length (select X (map Not lm)) < length X"
proof -
  have lml: "length lm = length X" by (simp add: lm_def)
  have sep: "separates X (feature_index bs) (threshold bs)"
    using best_split_separates [OF bs] .
  then have tf: "True \<in> set lm" "False \<in> set lm"
    unfolding lm_def by (simp_all only: separates_iff)
  have ms: "mask_select X lm = Inr (select X lm)" "mask_select y lm = Inr (select y lm)"
    "mask_select X (map Not lm) = Inr (select X (map Not lm))"
    "mask_select y (map Not lm) = Inr (select y (map Not lm))"
    using lml len by (simp_all add: mask_select_same_length)
  show "build_tree self X y depth =
           (case build_tree self (select X lm) (select y lm) (depth + 1) of
              Inl e \<Rightarrow> Inl e
            | Inr left \<Rightarrow>
                (case build_tree self (select X (map Not lm)) (select y (map Not lm))
                        (depth + 1) of
                   Inl e \<Rightarrow> Inl e
                 | Inr right \<Rightarrow>
                     Inr (Decision (feature_index bs) (threshold bs) (info_gain bs)
                            left right)))"
    by (subst build_tree.simps)
      (simp add: ns bs Let_def ms lm_def [symmetric] cong: sum.case_cong)
  show "length (select y lm) = length (select X lm)"
    using len lml by (simp add: length_select)
  show "length (select y (map Not lm)) = length (select X (map Not lm))"
    using len lml by (simp add: length_select)
  show "select y lm \<noteq> []"
    using mask_select_nonempty [OF ms(2)] tf by simp
  show "select y (map Not lm) \<noteq> []"
    using mask_select_nonempty [OF ms(4)] tf by (simp only: set_right_mask length_0_conv)
  show "length (select X lm) < length X"
    using mask_select_shorter [OF ms(1)] tf by simp
  show "length (select X (map Not lm)) < length X"
    using mask_select_shorter [OF ms(3)] tf by (simp only: set_right_mask)
qed

lemma argmax_first_max:
  assumes "xs \<noteq> []"
  obtains k where "argmax xs = Inr k" "k < length xs" "xs ! k = Max (set xs)"
    "\<And>j. j < k \<Longrightarrow> xs ! j < Max (set xs)"
proof -
  let ?P = "\<lambda>v. v < Max (set xs)"
  let ?k = "length (takeWhile ?P xs)"
  have "Max (set xs) \<in> set xs" using assms by simp
  then have "\<not> (\<forall>x\<in>set xs. ?P x)" by auto
  then have "takeWhile ?P xs \<noteq> xs" by simp
  then have "?k \<noteq> length xs" by (metis takeWhile_eq_take take_all order_refl)
  with length_takeWhile_le [of ?P xs] have k: "?k < length xs" by simp
  from nth_length_takeWhile [OF k] have "\<not> xs ! ?k < Max (set xs)" .
  moreover have "xs ! ?k \<le> Max (set xs)" using k by simp
  ultimately have m: "xs ! ?k = Max (set xs)" by simp
  have before: "\<And>j. j < ?k \<Longrightarrow> xs ! j < Max (set xs)"
  proof -
    fix j assume j: "j < ?k"
    then have "takeWhile ?P xs ! j \<in> set (takeWhile ?P xs)" by simp
    then have "?P (takeWhile ?P xs ! j)" by (blast dest: set_takeWhileD)
    with takeWhile_nth [OF j] show "xs ! j < Max (set xs)" by simp
  qed
  have "argmax xs = Inr ?k" using assms by (simp add: argmax_def)
  with k m before that show thesis by blast
qed

lemma bincount_nonneg:
  assumes "y \<noteq> []" "list_all (\<lambda>v. 0 \<le> v) y"
  obtains cs where "bincount y = Inr cs" "cs \<noteq> []"
    "\<And>c. c \<in> set y \<Longrightarrow> nat c < length cs \<and> cs ! nat c = count_list y c"
    "\<And>i. i < length cs \<Longrightarrow> cs ! i = count_list y (int i)"
proof -
  let ?cs = "map (\<lambda>i. count_list y (int i)) [0..<nat (Max (set y)) + 1]"
  have nn: "\<not> list_ex (\<lambda>v. v < 0) y"
    using assms(2) by (auto simp: list_all_iff list_ex_iff)
  then have b: "bincount y = Inr ?cs" using assms(1) by (simp add: bincount_def)
  have ne: "?cs \<noteq> []" by simp
  have idx: "\<And>i. i < length ?cs \<Longrightarrow> ?cs ! i = count_list y (int i)"
    by (simp del: upt_Suc)
  have mem: "\<And>c. c \<in> set y \<Longrightarrow> nat c < length ?cs \<and> ?cs ! nat c = count_list y c"
  proof -
    fix c assume c: "c \<in> set y"
    then have "c \<le> Max (set y)" by simp
    moreover from c assms(2) have c0: "0 \<le> c" by (auto simp: list_all_iff)
    ultimately have lt: "nat c < length ?cs" by simp
    from idx [OF lt] c0 lt show "nat c < length ?cs \<and> ?cs ! nat c = count_list y c"
      by simp
  qed
  from b ne mem idx that show thesis by blast
qed

lemma leaf_value_majority:
  assumes "y \<noteq> []" "list_all (\<lambda>v. 0 \<le> v) y"
  shows "\<exists>v. leaf_value y = Inr v \<and> majority_label y v"
proof -
  from bincount_nonneg [OF assms] obtain cs where
    b: "bincount y = Inr cs" and ne: "cs \<noteq> []"
    and mem: "\<And>c. c \<in> set y \<Longrightarrow> nat c < length cs \<and> cs ! nat c = count_list y c"
    and idx: "\<And>i. i < length cs \<Longrightarrow> cs ! i = count_list y (int i)"
    by blast
  from argmax_first_max [OF ne] obtain k where
    a: "argmax cs = Inr k" and k: "k < length cs" and m: "cs ! k = Max (set cs)"
    and before: "\<And>j. j < k \<Longrightarrow> cs ! j < Max (set cs)"
    by blast
  let ?M = "Max (set cs)"
  have lv: "leaf_value y = Inr (int k)" by (simp add: leaf_value_def b a)
  have cnt: "count_list y (int k) = ?M" using idx [OF k] m by simp
  have le: "\<And>c. count_list y c \<le> ?M"
  proof -
    fix c show "count_list y c \<le> ?M"
    proof (cases "c \<in> set y")
      case True
      from mem [OF True] have "count_list y c \<in> set cs" by (metis nth_mem)
      then show ?thesis by simp
    next
      case False
      then show ?thesis by (simp add: count_list_0_iff)
    qed
  qed
  from assms(1) obtain c0 where c0: "c0 \<in> set y" by (cases y) auto
  then have "0 < count_list y c0" by (simp add: count_list_0_iff zero_less_iff_neq_zero)
  with le [of c0] have pos: "0 < ?M" by simp
  have vin: "int k \<in> set y"
    using pos cnt by (metis count_list_0_iff less_numeral_extra(3))
  have tie: "\<And>c. count_list y c = count_list y (int k) \<Longrightarrow> int k \<le> c"
  proof -
    fix c assume e: "count_list y c = count_list y (int k)"
    with cnt pos have cin: "c \<in> set y" by (metis count_list_0_iff less_numeral_extra(3))
    with assms(2) have c0: "0 \<le> c" by (auto simp: list_all_iff)
    from mem [OF cin] e cnt have "nat c < length cs" "cs ! nat c = ?M" by simp_all
    with before [of "nat c"] have "k \<le> nat c" by (metis less_irrefl not_le_imp_less)
    with c0 show "int k \<le> c" by linarith
  qed
  from lv vin le cnt tie show ?thesis
    unfolding majority_label_def by simp
qed

lemma set_select_union:
  "length msk = length y \<Longrightarrow> set (select y msk) \<union> set (select y (map Not msk)) = set y"
  unfolding select_def by (induction msk y rule: list_induct2) auto

lemma list_all_select: "list_all P y \<Longrightarrow> list_all P (select y msk)"
  using set_select_subset [of y msk] by (auto simp: list_all_iff)

lemma list_all_select_both:
  assumes "length msk = length y"
    "list_all P (select y msk)" "list_all P (select y (map Not msk))"
  shows "list_all P y"
  using assms(2,3) set_select_union [OF assms(1)] by (auto simp: list_all_iff)

lemma make_leaf_majority:
  assumes "y \<noteq> []" "list_all (\<lambda>v. 0 \<le> v) y"
  shows "\<exists>v. make_leaf y = Inr (Leaf v) \<and> majority_label y v"
  using leaf_value_majority [OF assms] by (auto simp: make_leaf_def)

lemma make_leaf_result: "make_leaf y = Inl ValueError \<or> (\<exists>v. make_leaf y = Inr (Leaf v))"
  by (auto simp: make_leaf_def leaf_value_def bincount_def argmax_def split: sum.splits)

lemma majority_label_unique: "majority_label y v \<Longrightarrow> majority_label y w \<Longrightarrow> v = w"
  unfolding majority_label_def by (meson order_antisym)

lemma stopping_same_length:
  "length y = length X \<Longrightarrow>
     stopping self X y depth \<longleftrightarrow>
       ((case max_depth self of None \<Rightarrow> False | Some m \<Rightarrow> m \<le> int depth) \<or>
        int (length y) < min_samples_split self \<or> card (set y) = 1)"
  by (simp add: stopping_def unique_def distinct_card [symmetric] length_remdups_card_conv)


subsection \<open>Depth and leaves of the fitted tree\<close>

lemma fit_build_tree:
  "fit self X y = Inr c \<longleftrightarrow>
     (\<exists>t. build_tree self X y 0 = Inr t \<and>
          c = self\<lparr>n_classes := Some (length (unique y)), n_features := Some (shape1 X),
                    root_node := Some t\<rparr>)"
  by (auto simp: fit_def split: sum.splits)

lemma build_tree_height:
  "length y = length X \<Longrightarrow> build_tree self X y depth = Inr t \<Longrightarrow>
   max_depth self = Some m \<Longrightarrow> int depth + int (height t) \<le> max (int depth) m"
proof (induction "length X" arbitrary: X y depth t rule: less_induct)
  case less
  show ?case
  proof (cases "stopping self X y depth \<or> best_split X y = Inr None")
    case True
    from build_tree_leaf_case [OF True] less.prems(2) make_leaf_result [of y]
    obtain v where "t = Leaf v" by auto
    then show ?thesis by simp
  next
    case False
    with best_split_total [OF less.prems(1)] obtain bs
      where bs: "best_split X y = Inr (Some bs)" by blast
    from False have ns: "\<not> stopping self X y depth" by simp
    note nc = build_tree_node_case [OF less.prems(1) ns bs]
    let ?lm = "map (\<lambda>v. v \<le> threshold bs) (column X (feature_index bs))"
    from nc(1) less.prems(2) obtain l r where
      l: "build_tree self (select X ?lm) (select y ?lm) (depth + 1) = Inr l"
      and r: "build_tree self (select X (map Not ?lm)) (select y (map Not ?lm)) (depth + 1)
                = Inr r"
      and t: "t = Decision (feature_index bs) (threshold bs) (info_gain bs) l r"
      by (auto split: sum.splits)
    from ns less.prems(3) have d: "int depth < m" by (simp add: stopping_def)
    from less.hyps [OF nc(6) nc(2) l less.prems(3)] d
    have hl: "int (depth + 1) + int (height l) \<le> m" by simp
    from less.hyps [OF nc(7) nc(3) r less.prems(3)] d
    have hr: "int (depth + 1) + int (height r) \<le> m" by simp
    from hl hr t show ?thesis by (simp add: max_def)
  qed
qed

lemma leaf_subsets_depth:
  "(d, Xs, ys) \<in> set (leaf_subsets t X y depth) \<Longrightarrow> depth \<le> d \<and> d \<le> depth + height t"
proof (induction t arbitrary: X y depth)
  case (Leaf v)
  then show ?case by simp
next
  case (Decision fi th g l r)
  let ?lm = "map (\<lambda>v. v \<le> th) (column X fi)"
  from Decision.prems consider
    "(d, Xs, ys) \<in> set (leaf_subsets l (select X ?lm) (select y ?lm) (depth + 1))"
    | "(d, Xs, ys) \<in> set (leaf_subsets r (select X (map Not ?lm)) (select y (map Not ?lm))
                             (depth + 1))"
    by (auto simp: Let_def)
  then show ?case
  proof cases
    case 1
    from Decision.IH(1) [OF 1] show ?thesis by (simp add: max_def)
  next
    case 2
    from Decision.IH(2) [OF 2] show ?thesis by (simp add: max_def)
  qed
qed

lemma build_tree_leaf_subsets:
  "length y = length X \<Longrightarrow> build_tree self X y depth = Inr t \<Longrightarrow>
   (d, Xs, ys) \<in> set (leaf_subsets t X y depth) \<Longrightarrow>
   length ys = length Xs \<and> (stopping self Xs ys d \<or> best_split Xs ys = Inr None)"
proof (induction "length X" arbitrary: X y depth t rule: less_induct)
  case less
  show ?case
  proof (cases "stopping self X y depth \<or> best_split X y = Inr None")
    case True
    from build_tree_leaf_case [OF True] less.prems(2) make_leaf_result [of y]
    obtain v where "t = Leaf v" by auto
    with less.prems(1,3) True show ?thesis by simp
  next
    case False
    with best_split_total [OF less.prems(1)] obtain bs
      where bs: "best_split X y = Inr (Some bs)" by blast
    from False have ns: "\<not> stopping self X y depth" by simp
    note nc = build_tree_node_case [OF less.prems(1) ns bs]
    let ?lm = "map (\<lambda>v. v \<le> threshold bs) (column X (feature_index bs))"
    from nc(1) less.prems(2) obtain l r where
      l: "build_tree self (select X ?lm) (select y ?lm) (depth + 1) = Inr l"
      and r: "build_tree self (select X (map Not ?lm)) (select y (map Not ?lm)) (depth + 1)
                = Inr r"
      and t: "t = Decision (feature_index bs) (threshold bs) (info_gain bs) l r"
      by (auto split: sum.splits)
    from less.prems(3) t consider
      "(d, Xs, ys) \<in> set (leaf_subsets l (select X ?lm) (select y ?lm) (depth + 1))"
      | "(d, Xs, ys) \<in> set (leaf_subsets r (select X (map Not ?lm)) (select y (map Not ?lm))
                               (depth + 1))"
      by (auto simp: Let_def)
    then show ?thesis
    proof cases
      case 1
      from less.hyps [OF nc(6) nc(2) l 1] show ?thesis .
    next
      case 2
      from less.hyps [OF nc(7) nc(3) r 2] show ?thesis .
    qed
  qed
qed

lemma root_node_fit:
  "fit self X y = Inr c \<Longrightarrow> root_node c = Some t \<Longrightarrow> build_tree self X y 0 = Inr t"
  by (auto simp: fit_build_tree)

text \<open>
  C4, as the code has it. In the tree that \<open>fit\<close> returns for at least one row and as
  many labels as rows, the training rows that reach a leaf have one distinct label,
  or are fewer than \<open>min_samples_split\<close>, or the leaf is at the depth \<open>max_depth\<close> (at
  depth 0 when \<open>max_depth\<close> is negative), or the split search finds no split of them
  with two non-empty sides.
\<close>

theorem fitted_leaf_conditions:
  assumes "X \<noteq> []" and "length y = length X"
    and "fit self X y = Inr c" and "root_node c = Some t"
    and "(d, Xs, ys) \<in> set (leaf_subsets t X y 0)"
  shows "card (set ys) = 1 \<or> int (length ys) < min_samples_split self \<or>
         (\<exists>m. max_depth self = Some m \<and> int d = max 0 m) \<or>
         best_split Xs ys = Inr None"
proof -
  note bt = root_node_fit [OF assms(3,4)]
  from build_tree_leaf_subsets [OF assms(2) bt assms(5)]
  have len: "length ys = length Xs"
    and stop: "stopping self Xs ys d \<or> best_split Xs ys = Inr None" by simp_all
  show ?thesis
  proof (cases "\<exists>m. max_depth self = Some m \<and> m \<le> int d")
    case True
    then obtain m where m: "max_depth self = Some m" "m \<le> int d" by blast
    from leaf_subsets_depth [OF assms(5)] build_tree_height [OF assms(2) bt m(1)]
    have "int d \<le> max 0 m" by simp
    with m show ?thesis by (auto simp: max_def)
  next
    case False
    with stop show ?thesis
      by (auto simp: stopping_same_length [OF len] split: option.splits)
  qed
qed

theorem fitted_leaf_conditions_witness:
  "[[0::real], [1], [2], [3]] \<noteq> [] \<and>
   length [0, 0, 1, 1::int] = length [[0::real], [1], [2], [3]] \<and>
   fit (init None 2) [[0], [1], [2], [3]] [0, 0, 1, 1] =
     Inr \<lparr>max_depth = None, min_samples_split = 2, n_classes = Some 2,
          n_features = Some 1, root_node = Some (Decision 0 1 1 (Leaf 0) (Leaf 1))\<rparr> \<and>
   leaf_subsets (Decision 0 1 1 (Leaf 0) (Leaf 1)) [[0], [1], [2], [3]] [0, 0, 1, 1] 0 =
     [(1, [[0], [1]], [0, 0]), (1, [[2], [3]], [1, 1])] \<and>
   (card (set [0, 0::int]) = 1 \<or> int (length [0, 0::int]) < 2 \<or>
    (\<exists>m. max_depth (init None 2) = Some m \<and> int 1 = max 0 m) \<or>
    best_split [[0], [1]] [0, 0] = Inr None)"
proof -
  let ?X = "[[0::real], [1], [2], [3]]" and ?y = "[0, 0, 1, 1::int]"
  let ?t = "Decision 0 1 1 (Leaf 0) (Leaf 1)"
  let ?c = "\<lparr>max_depth = None, min_samples_split = 2, n_classes = Some 2,
          n_features = Some 1, root_node = Some ?t\<rparr>"
  have ne: "?X \<noteq> []" and len: "length ?y = length ?X" by simp_all
  have f: "fit (init None 2) ?X ?y = Inr ?c"
    by (simp add: fit_def build_tree_four_rows) (simp add: init_def unique_def shape1_def)
  have r: "root_node ?c = Some ?t" by simp
  have ls: "leaf_subsets ?t ?X ?y 0 = [(1, [[0], [1]], [0, 0]), (1, [[2], [3]], [1, 1])]"
    by (simp add: Let_def column_def select_def)
  then have m: "(1, [[0], [1]], [0, 0]) \<in> set (leaf_subsets ?t ?X ?y 0)" by simp
  from fitted_leaf_conditions [OF ne len f r m] ne len f ls show ?thesis by simp
qed

text \<open>
  Two equal rows with different labels: the root is a leaf with two distinct labels,
  as many rows as \<open>min_samples_split\<close> and no \<open>max_depth\<close>.
\<close>

theorem leaf_without_separating_split:
  "fit (init None 2) [[0], [0]] [0, 1] =
     Inr \<lparr>max_depth = None, min_samples_split = 2, n_classes = Some 2,
          n_features = Some 1, root_node = Some (Leaf 0)\<rparr> \<and>
   leaf_subsets (Leaf 0) [[0], [0]] [0, 1] 0 = [(0, [[0], [0]], [0, 1])] \<and>
   card (set [0, 1::int]) = 2 \<and> \<not> int (length [0, 1::int]) < 2 \<and>
   max_depth (init None 2) = None \<and> best_split [[0], [0]] [0, 1] = Inr None"
proof -
  have "build_tree (init None 2) [[0], [0]] [0, 1] 0 = Inr (Leaf 0)"
    by (subst build_tree.simps)
      (simp add: leaf_defs unique_def best_split_constant_column)
  then show ?thesis
    by (simp add: fit_def best_split_constant_column)
      (simp add: init_def unique_def shape1_def)
qed

lemma list_ex_negative: "list_ex (\<lambda>v. v < 0) y \<longleftrightarrow> \<not> list_all (\<lambda>v. 0 \<le> v) (y::int list)"
  by (induction y) auto

lemma unique_nonempty: "xs \<noteq> [] \<Longrightarrow> unique xs \<noteq> []"
  using set_unique [of xs] by (metis set_empty)

subsection \<open>Prediction\<close>

lemma shape1_rectangular:
  "X \<noteq> [] \<Longrightarrow> list_all (\<lambda>r. length r = d) X \<Longrightarrow> shape1 X = d"
  by (cases X) (simp_all add: shape1_def)

lemma build_tree_features_below:
  "length y = length X \<Longrightarrow> list_all (\<lambda>r. length r = d) X \<Longrightarrow>
   build_tree self X y depth = Inr t \<Longrightarrow> features_below d t"
proof (induction "length X" arbitrary: X y depth t rule: less_induct)
  case less
  show ?case
  proof (cases "stopping self X y depth \<or> best_split X y = Inr None")
    case True
    from build_tree_leaf_case [OF True] less.prems(3) make_leaf_result [of y]
    obtain v where "t = Leaf v" by auto
    then show ?thesis by simp
  next
    case False
    with best_split_total [OF less.prems(1)] obtain bs
      where bs: "best_split X y = Inr (Some bs)" by blast
    from False have ns: "\<not> stopping self X y depth" by simp
    note nc = build_tree_node_case [OF less.prems(1) ns bs]
    let ?lm = "map (\<lambda>v. v \<le> threshold bs) (column X (feature_index bs))"
    from nc(1) less.prems(3) obtain l r where
      l: "build_tree self (select X ?lm) (select y ?lm) (depth + 1) = Inr l"
      and r: "build_tree self (select X (map Not ?lm)) (select y (map Not ?lm)) (depth + 1)
                = Inr r"
      and t: "t = Decision (feature_index bs) (threshold bs) (info_gain bs) l r"
      by (auto split: sum.splits)
    from best_split_Some(2) [OF less.prems(1) bs] have "X \<noteq> []"
      by (rule separates_nonempty)
    from shape1_rectangular [OF this less.prems(2)]
      chosen_first_mem [OF best_split_Some(3) [OF less.prems(1) bs]]
    have fi: "feature_index bs < d" by (simp add: set_candidates)
    from less.hyps [OF nc(6) nc(2) list_all_select [OF less.prems(2)] l]
    have "features_below d l" .
    moreover from less.hyps [OF nc(7) nc(3) list_all_select [OF less.prems(2)] r]
    have "features_below d r" .
    ultimately show ?thesis using t fi by simp
  qed
qed

lemma predict_single_error:
  "predict_single x t = Inl e \<longleftrightarrow>
     e = IndexError \<and> list_ex (\<lambda>fi. length x \<le> fi) (traversed x t)"
proof (induction t)
  case (Leaf v)
  show ?case by simp
next
  case (Decision fi th g l r)
  show ?case
  proof (cases "length x \<le> fi")
    case True
    then show ?thesis by auto
  next
    case False
    then show ?thesis using Decision by (cases "x ! fi \<le> th") simp_all
  qed
qed

lemma traversed_below:
  "features_below d t \<Longrightarrow> list_all (\<lambda>fi. fi < d) (traversed x t)"
  by (induction t) simp_all

lemma predict_single_wide_enough:
  assumes "features_below d t" "d \<le> length x"
  shows "\<exists>v. predict_single x t = Inr v"
proof (cases "predict_single x t")
  case (Inl e)
  then have "list_ex (\<lambda>fi. length x \<le> fi) (traversed x t)"
    by (simp add: predict_single_error)
  then obtain fi where "fi \<in> set (traversed x t)" "length x \<le> fi"
    unfolding list_ex_iff by blast
  moreover from traversed_below [OF assms(1), of x]
  have "\<forall>fi\<in>set (traversed x t). fi < d" unfolding list_all_iff .
  ultimately show ?thesis using assms(2) by fastforce
next
  case (Inr v)
  then show ?thesis by simp
qed

lemma predict_one_row:
  "root_node c = Some n \<Longrightarrow>
     predict c [x] = (case predict_single x n of Inl e \<Rightarrow> Inl e | Inr v \<Rightarrow> Inr [v])"
  by (simp add: predict_def split: sum.splits)

text \<open>
  C6, as the code has it. For a tree fitted on at least one row, with all rows of the
  same width and as many labels as rows, prediction does not compare the width of a
  query with the training width. A query at least as wide as the training rows gets a
  label, also when it is wider. The only error is IndexError, and it is raised exactly
  when a decision node that the query reaches reads a feature index that is not below
  the width of the query, which needs a query narrower than the training rows.
\<close>

theorem predict_width_unchecked:
  assumes "X \<noteq> []" and "list_all (\<lambda>r. length r = shape1 X) X"
    and "length y = length X"
    and "fit self X y = Inr c" and "root_node c = Some t"
  shows "(shape1 X \<le> length x \<longrightarrow> (\<exists>v. predict c [x] = Inr [v])) \<and>
         (\<forall>e. predict c [x] = Inl e \<longleftrightarrow>
               e = IndexError \<and> list_ex (\<lambda>fi. length x \<le> fi) (traversed x t)) \<and>
         (list_ex (\<lambda>fi. length x \<le> fi) (traversed x t) \<longrightarrow> length x < shape1 X)"
proof -
  note bt = root_node_fit [OF assms(4,5)]
  note fb = build_tree_features_below [OF assms(3,2) bt]
  note p1 = predict_one_row [OF assms(5), of x]
  have a: "\<exists>v. predict c [x] = Inr [v]" if "shape1 X \<le> length x"
  proof -
    from predict_single_wide_enough [OF fb that] obtain v
      where "predict_single x t = Inr v" by blast
    with p1 show ?thesis by simp
  qed
  have b: "predict c [x] = Inl e \<longleftrightarrow>
               e = IndexError \<and> list_ex (\<lambda>fi. length x \<le> fi) (traversed x t)" for e
  proof (cases "predict_single x t")
    case (Inl e')
    with p1 have "predict c [x] = Inl e'" by simp
    with Inl predict_single_error [of x t e] show ?thesis by simp
  next
    case (Inr v)
    with p1 have "predict c [x] = Inr [v]" by simp
    with Inr predict_single_error [of x t e] show ?thesis by simp
  qed
  have c: "length x < shape1 X" if "list_ex (\<lambda>fi. length x \<le> fi) (traversed x t)"
  proof -
    from that obtain fi where "fi \<in> set (traversed x t)" "length x \<le> fi"
      unfolding list_ex_iff by blast
    moreover from traversed_below [OF fb, of x]
    have "\<forall>fi\<in>set (traversed x t). fi < shape1 X" unfolding list_all_iff .
    ultimately show ?thesis by fastforce
  qed
  from a b c show ?thesis by blast
qed

lemma build_tree_two_rows:
  "build_tree (init None 2) [[0], [1]] [0, 1] 0 = Inr (Decision 0 0 1 (Leaf 0) (Leaf 1))"
proof -
  have l: "build_tree (init None 2) [[0]] [0] (Suc 0) = Inr (Leaf 0)"
    by (subst build_tree.simps) (simp add: leaf_defs unique_def)
  have r: "build_tree (init None 2) [[1]] [1] (Suc 0) = Inr (Leaf 1)"
    by (subst build_tree.simps) (simp add: leaf_defs unique_def)
  show ?thesis
    by (subst build_tree.simps)
      (simp add: best_split_two_rows l r stopping_def unique_def column_def
        mask_select_def select_def Let_def)
qed

lemma fit_two_rows:
  "fit (init None 2) [[0], [1]] [0, 1] =
     Inr \<lparr>max_depth = None, min_samples_split = 2, n_classes = Some 2,
          n_features = Some 1, root_node = Some (Decision 0 0 1 (Leaf 0) (Leaf 1))\<rparr>"
  by (simp add: fit_def build_tree_two_rows) (simp add: init_def unique_def shape1_def)

lemma fit_two_rows_one_class:
  "fit (init None 2) [[0], [1]] [1, 1] =
     Inr \<lparr>max_depth = None, min_samples_split = 2, n_classes = Some 1,
          n_features = Some 1, root_node = Some (Leaf 1)\<rparr>"
proof -
  have "build_tree (init None 2) [[0], [1]] [1, 1] 0 = Inr (Leaf 1)"
    by (subst build_tree.simps) (simp add: leaf_defs unique_def)
  then show ?thesis by (simp add: fit_def) (simp add: init_def unique_def shape1_def)
qed

theorem predict_width_unchecked_witness:
  "[[0::real], [1]] \<noteq> [] \<and>
   list_all (\<lambda>r. length r = shape1 [[0::real], [1]]) [[0::real], [1]] \<and>
   length [0, 1::int] = length [[0::real], [1]] \<and>
   fit (init None 2) [[0], [1]] [0, 1] =
     Inr \<lparr>max_depth = None, min_samples_split = 2, n_classes = Some 2,
          n_features = Some 1, root_node = Some (Decision 0 0 1 (Leaf 0) (Leaf 1))\<rparr> \<and>
   shape1 [[0::real], [1]] \<le> length [0::real, 5] \<and>
   predict \<lparr>max_depth = None, min_samples_split = 2, n_classes = Some 2,
          n_features = Some 1, root_node = Some (Decision 0 0 1 (Leaf 0) (Leaf 1))\<rparr>
     [[0, 5]] = Inr [0] \<and>
   traversed [] (Decision 0 0 1 (Leaf 0) (Leaf 1)) = [0] \<and>
   predict \<lparr>max_depth = None, min_samples_split = 2, n_classes = Some 2,
          n_features = Some 1, root_node = Some (Decision 0 0 1 (Leaf 0) (Leaf 1))\<rparr>
     [[]] = Inl IndexError \<and>
   length ([]::real list) < shape1 [[0::real], [1]]"
proof -
  let ?X = "[[0::real], [1]]" and ?y = "[0, 1::int]"
  let ?t = "Decision 0 0 1 (Leaf 0) (Leaf 1)"
  let ?c = "\<lparr>max_depth = None, min_samples_split = 2, n_classes = Some 2,
          n_features = Some 1, root_node = Some ?t\<rparr>"
  have ne: "?X \<noteq> []" and rect: "list_all (\<lambda>r. length r = shape1 ?X) ?X"
    and len: "length ?y = length ?X" by (simp_all add: shape1_def)
  have r: "root_node ?c = Some ?t" by simp
  note t = predict_width_unchecked [OF ne rect len fit_two_rows r]
  have w: "shape1 ?X \<le> length [0::real, 5]" by (simp add: shape1_def)
  have p: "predict ?c [[0, 5]] = Inr [0]" by (simp add: predict_def)
  have tr: "traversed [] ?t = [0]" by simp
  from t [of "[]"] tr have e: "predict ?c [[]] = Inl IndexError" by simp
  from t [of "[]"] tr have n: "length ([]::real list) < shape1 ?X" by simp
  from t [of "[0, 5]"] w have "\<exists>v. predict ?c [[0, 5]] = Inr [v]" by blast
  with ne rect len fit_two_rows w p tr e n show ?thesis by blast
qed

text \<open>
  A tree fitted on rows of width 1 labels a query of width 2, and a tree of one leaf
  labels the empty query.
\<close>

theorem predict_accepts_other_widths:
  "fit (init None 2) [[0], [1]] [0, 1] =
     Inr \<lparr>max_depth = None, min_samples_split = 2, n_classes = Some 2,
          n_features = Some 1, root_node = Some (Decision 0 0 1 (Leaf 0) (Leaf 1))\<rparr> \<and>
   shape1 [[0::real], [1]] = 1 \<and> length [0::real, 5] = 2 \<and>
   predict \<lparr>max_depth = None, min_samples_split = 2, n_classes = Some 2,
          n_features = Some 1, root_node = Some (Decision 0 0 1 (Leaf 0) (Leaf 1))\<rparr>
     [[0, 5]] = Inr [0] \<and>
   fit (init None 2) [[0], [1]] [1, 1] =
     Inr \<lparr>max_depth = None, min_samples_split = 2, n_classes = Some 1,
          n_features = Some 1, root_node = Some (Leaf 1)\<rparr> \<and>
   length ([]::real list) = 0 \<and>
   predict \<lparr>max_depth = None, min_samples_split = 2, n_classes = Some 1,
          n_features = Some 1, root_node = Some (Leaf 1)\<rparr> [[]] = Inr [1]"
  by (simp add: fit_two_rows fit_two_rows_one_class shape1_def predict_def)

text \<open>
  C9. With \<open>min_samples_split = 2\<close> and no \<open>max_depth\<close>, \<open>fit\<close> on the rows
  \<open>[0], [1], [2], [3]\<close> with the labels \<open>0, 0, 1, 1\<close> returns a tree whose root
  splits feature 0 at the threshold 1, which lies in \<open>[1, 2)\<close>, with the gain 1, and
  whose children are the leaves 0 and 1; it predicts 0 for \<open>[0.5]\<close> and 1 for
  \<open>[2.5]\<close>.
\<close>

theorem four_rows_scenario:
  "fit (init None 2) [[0], [1], [2], [3]] [0, 0, 1, 1] =
     Inr \<lparr>max_depth = None, min_samples_split = 2, n_classes = Some 2,
          n_features = Some 1, root_node = Some (Decision 0 1 1 (Leaf 0) (Leaf 1))\<rparr> \<and>
   (\<exists>th g left right.
      Decision 0 1 1 (Leaf 0) (Leaf 1) = Decision 0 th g left right \<and>
      1 \<le> th \<and> th < 2 \<and> 0 < g) \<and>
   predict \<lparr>max_depth = None, min_samples_split = 2, n_classes = Some 2,
          n_features = Some 1, root_node = Some (Decision 0 1 1 (Leaf 0) (Leaf 1))\<rparr>
     [[1/2]] = Inr [0] \<and>
   predict \<lparr>max_depth = None, min_samples_split = 2, n_classes = Some 2,
          n_features = Some 1, root_node = Some (Decision 0 1 1 (Leaf 0) (Leaf 1))\<rparr>
     [[5/2]] = Inr [1]"
proof -
  have "fit (init None 2) [[0], [1], [2], [3]] [0, 0, 1, 1] =
     Inr \<lparr>max_depth = None, min_samples_split = 2, n_classes = Some 2,
          n_features = Some 1, root_node = Some (Decision 0 1 1 (Leaf 0) (Leaf 1))\<rparr>"
    by (simp add: fit_def build_tree_four_rows) (simp add: init_def unique_def shape1_def)
  then show ?thesis by (simp add: predict_def)
qed

section \<open>Properties of the program on a machine\<close>

subsection \<open>Rounding to a double, evaluated\<close>

lemma floor_log2_binade:
  assumes "2 powr of_int k \<le> x" "x < 2 powr (of_int k + 1)"
  shows "\<lfloor>log 2 x\<rfloor> = k"
proof -
  have pos: "0 < x" using assms(1) by (smt (verit) powr_gt_zero)
  have "of_int k \<le> log 2 x" using assms(1) pos by (simp add: le_log_iff)
  moreover have "log 2 x < of_int k + 1" using assms(2) pos by (simp add: log_less_iff)
  ultimately show ?thesis by (simp add: floor_unique)
qed

lemma two_powr_nat: "(2::real) powr real k = 2 ^ k"
  by (simp add: powr_realpow)

lemma two_powr_neg_nat: "(2::real) powr (- real k) = 1 / 2 ^ k"
  by (simp add: powr_minus powr_realpow inverse_eq_divide)

lemma double_round_small:
  assumes "1 / 2 ^ n \<le> \<bar>x\<bar>" "\<bar>x\<bar> < 2 / 2 ^ n"
  shows "double_round x = of_int (round_half_even (x * 2 ^ (n + 52))) / 2 ^ (n + 52)"
proof -
  have e1: "(2::real) powr (- real n + 1) = 2 / 2 ^ n"
    by (simp only: powr_add two_powr_neg_nat) simp
  have "\<lfloor>log 2 \<bar>x\<bar>\<rfloor> = - int n"
    by (rule floor_log2_binade) (use assms e1 in \<open>simp_all add: two_powr_neg_nat\<close>)
  moreover have "(2::real) powr (- real n - 52) = 1 / 2 ^ (n + 52)"
    using two_powr_neg_nat [of "n + 52"] by (simp add: algebra_simps)
  moreover from assms(1) have "x \<noteq> 0" by (smt (verit) divide_pos_pos zero_less_power)
  ultimately show ?thesis by (simp add: double_round_def Let_def)
qed

lemma double_round_large:
  assumes "2 ^ n \<le> \<bar>x\<bar>" "\<bar>x\<bar> < 2 * 2 ^ n" "n \<le> 52"
  shows "double_round x = of_int (round_half_even (x * 2 ^ (52 - n))) / 2 ^ (52 - n)"
proof -
  have e1: "(2::real) powr (real n + 1) = 2 * 2 ^ n"
    by (simp only: powr_add two_powr_nat) simp
  have "\<lfloor>log 2 \<bar>x\<bar>\<rfloor> = int n"
    by (rule floor_log2_binade) (use assms e1 in \<open>simp_all add: two_powr_nat\<close>)
  moreover have "(2::real) powr (real n - 52) = 1 / 2 ^ (52 - n)"
  proof -
    have "real n - 52 = - real (52 - n)" using assms(3) by simp
    then show ?thesis by (simp only: two_powr_neg_nat)
  qed
  moreover from assms(1) have "x \<noteq> 0" by (smt (verit) zero_less_power)
  ultimately show ?thesis by (simp add: double_round_def Let_def)
qed

lemma double_round_exact_values:
  "double_round 0 = 0" "double_round 1 = 1" "double_round (-1) = -1"
  "double_round (-2) = -2" "double_round (1/2) = 1/2" "double_round (- (1/2)) = - (1/2)"
  "double_round (1/4) = 1/4" "double_round (3/2) = 3/2"
proof -
  show "double_round 0 = 0" by (simp add: double_round_def)
  show "double_round 1 = 1"
    by (subst double_round_large [of 0]) (simp_all add: round_half_even_def)
  show "double_round (-1) = -1"
    by (subst double_round_large [of 0]) (simp_all add: round_half_even_def)
  show "double_round (-2) = -2"
    by (subst double_round_large [of 1]) (simp_all add: round_half_even_def)
  show "double_round (1/2) = 1/2"
    by (subst double_round_small [of 1]) (simp_all add: round_half_even_def)
  show "double_round (- (1/2)) = - (1/2)"
    by (subst double_round_small [of 1]) (simp_all add: round_half_even_def)
  show "double_round (1/4) = 1/4"
    by (subst double_round_small [of 2]) (simp_all add: round_half_even_def)
  show "double_round (3/2) = 3/2"
    by (subst double_round_large [of 0]) (simp_all add: round_half_even_def)
qed

lemma double_round_fifths:
  "double_round (1/5) = 3602879701896397 / 2 ^ 54"
  "double_round (4/5) = 3602879701896397 / 2 ^ 52"
proof -
  show "double_round (1/5) = 3602879701896397 / 2 ^ 54"
    by (subst double_round_small [of 3]) (simp_all add: round_half_even_def)
  show "double_round (4/5) = 3602879701896397 / 2 ^ 52"
    by (subst double_round_small [of 1]) (simp_all add: round_half_even_def)
qed

subsection \<open>The split search of the machine as one pass over the candidates\<close>

lemma information_gain_env_select:
  assumes "y \<noteq> []"
  shows "information_gain_env m y (select y (map (\<lambda>v. v \<le> th) (column X fi)))
           (select y (map Not (map (\<lambda>v. v \<le> th) (column X fi))))
         = Inr (gain_env m X y fi th)"
  using assms by (simp add: information_gain_env_def gain_env_def Let_def)

lemma threshold_loop_env_step:
  assumes "length y = length X"
  shows "threshold_loop_env m (column X fi) y fi (th # ths) st
       = threshold_loop_env m (column X fi) y fi ths (step_env m X y (fi, th) st)"
proof -
  let ?lm = "map (\<lambda>v. v \<le> th) (column X fi)"
  have l: "mask_select y ?lm = Inr (select y ?lm)"
    and r: "mask_select y (map Not ?lm) = Inr (select y (map Not ?lm))"
    using assms by (simp_all add: mask_select_same_length)
  have nl: "length (select y ?lm) \<noteq> 0 \<longleftrightarrow> True \<in> set ?lm"
    by (rule select_nonempty) (simp add: assms)
  have "length (select y (map Not ?lm)) \<noteq> 0 \<longleftrightarrow> True \<in> set (map Not ?lm)"
    by (rule select_nonempty) (simp add: assms)
  then have nr: "length (select y (map Not ?lm)) \<noteq> 0 \<longleftrightarrow> False \<in> set ?lm"
    by (simp only: set_right_mask)
  show ?thesis
  proof (cases "separates X fi th")
    case True
    then have t: "True \<in> set ?lm" "False \<in> set ?lm" by (simp_all add: separates_iff)
    with nl have "select y ?lm \<noteq> []" by auto
    then have "y \<noteq> []" by (auto simp: select_def)
    from information_gain_env_select [OF this, of m th X fi] l r nl nr t True
    show ?thesis by (simp add: Let_def step_env_def del: set_map)
  next
    case False
    then have "\<not> True \<in> set ?lm \<or> \<not> False \<in> set ?lm" by (simp add: separates_iff)
    with l r nl nr False show ?thesis
      by (auto simp: Let_def step_env_def simp del: set_map)
  qed
qed

lemma threshold_loop_env_fold:
  "length y = length X \<Longrightarrow>
     threshold_loop_env m (column X fi) y fi ths st = Inr (fold (\<lambda>th. step_env m X y (fi, th)) ths st)"
proof (induction ths arbitrary: st)
  case Nil
  then show ?case by simp
next
  case (Cons th ths)
  then show ?case by (simp only: threshold_loop_env_step fold_Cons comp_apply)
qed

lemma feature_loop_env_fold:
  "length y = length X \<Longrightarrow>
     feature_loop_env m X y fis st
       = Inr (fold (step_env m X y)
               (concat (map (\<lambda>fi. map (\<lambda>th. (fi, th)) (unique (column X fi))) fis)) st)"
proof (induction fis arbitrary: st)
  case Nil
  then show ?case by simp
next
  case (Cons fi fis)
  then show ?case by (simp add: threshold_loop_env_fold fold_map comp_def)
qed

lemma best_split_env_fold:
  "length y = length X \<Longrightarrow>
     best_split_env m X y = Inr (snd (fold (step_env m X y) (candidates X) (-1, None)))"
  by (simp add: best_split_env_def feature_loop_env_fold candidates_def)

lemma chosen_first_env_snoc_keep:
  assumes "chosen_first_env m X y cs bs"
    and "separates X (fst c) (snd c) \<longrightarrow> gain_env m X y (fst c) (snd c) \<le> info_gain bs"
  shows "chosen_first_env m X y (cs @ [c]) bs"
proof -
  from assms(1) obtain pre post where
    cs: "cs = pre @ (feature_index bs, threshold bs) # post"
    and pre: "\<forall>c\<in>set pre. separates X (fst c) (snd c) \<longrightarrow>
                gain_env m X y (fst c) (snd c) < info_gain bs"
    and post: "\<forall>c\<in>set post. separates X (fst c) (snd c) \<longrightarrow>
                gain_env m X y (fst c) (snd c) \<le> info_gain bs"
    unfolding chosen_first_env_def by blast
  have "cs @ [c] = pre @ (feature_index bs, threshold bs) # (post @ [c])"
    using cs by simp
  moreover have "\<forall>d\<in>set (post @ [c]). separates X (fst d) (snd d) \<longrightarrow>
                gain_env m X y (fst d) (snd d) \<le> info_gain bs"
    using post assms(2) by auto
  ultimately show ?thesis unfolding chosen_first_env_def using pre by blast
qed

lemma chosen_first_env_snoc_new:
  assumes "\<forall>d\<in>set cs. separates X (fst d) (snd d) \<longrightarrow> gain_env m X y (fst d) (snd d) < g"
  shows "chosen_first_env m X y (cs @ [c]) \<lparr>feature_index = fst c, threshold = snd c, info_gain = g\<rparr>"
  unfolding chosen_first_env_def
  by (rule exI [of _ cs], rule exI [of _ "[]"]) (use assms in simp)

lemma chosen_first_env_bound:
  assumes "chosen_first_env m X y cs bs" "d \<in> set cs" "separates X (fst d) (snd d)"
    "info_gain bs = gain_env m X y (feature_index bs) (threshold bs)"
  shows "gain_env m X y (fst d) (snd d) \<le> info_gain bs"
proof -
  from assms(1) obtain pre post where
    cs: "cs = pre @ (feature_index bs, threshold bs) # post"
    and pre: "\<forall>c\<in>set pre. separates X (fst c) (snd c) \<longrightarrow>
                gain_env m X y (fst c) (snd c) < info_gain bs"
    and post: "\<forall>c\<in>set post. separates X (fst c) (snd c) \<longrightarrow>
                gain_env m X y (fst c) (snd c) \<le> info_gain bs"
    unfolding chosen_first_env_def by blast
  from assms(2) cs consider "d \<in> set pre" | "d = (feature_index bs, threshold bs)"
    | "d \<in> set post" by auto
  then show ?thesis
  proof cases
    case 1 with pre assms(3) show ?thesis by force
  next
    case 2 with assms(4) show ?thesis by simp
  next
    case 3 with post assms(3) show ?thesis by blast
  qed
qed

lemma search_inv_env_step:
  assumes "search_inv_env m X y b0 cs st"
  shows "search_inv_env m X y b0 (cs @ [c]) (step_env m X y c st)"
proof (cases "separates X (fst c) (snd c) \<and> gain_env m X y (fst c) (snd c) > fst st")
  case True
  let ?g = "gain_env m X y (fst c) (snd c)"
  have earlier: "\<forall>d\<in>set cs. separates X (fst d) (snd d) \<longrightarrow> gain_env m X y (fst d) (snd d) < ?g"
  proof (cases "snd st")
    case None
    with assms True show ?thesis by (fastforce simp: search_inv_env_def)
  next
    case (Some bs)
    with assms have inv: "fst st = info_gain bs"
      "info_gain bs = gain_env m X y (feature_index bs) (threshold bs)"
      "chosen_first_env m X y cs bs"
      by (simp_all add: search_inv_env_def)
    show ?thesis
    proof (intro ballI impI)
      fix d assume "d \<in> set cs" "separates X (fst d) (snd d)"
      from chosen_first_env_bound [OF inv(3) this inv(2)] inv(1) True
      show "gain_env m X y (fst d) (snd d) < ?g" by simp
    qed
  qed
  have "b0 < ?g"
  proof (cases "snd st")
    case None
    with assms True show ?thesis by (simp add: search_inv_env_def)
  next
    case (Some bs)
    with assms True show ?thesis by (simp add: search_inv_env_def)
  qed
  with True chosen_first_env_snoc_new [OF earlier, of c] show ?thesis
    by (simp add: search_inv_env_def step_env_def)
next
  case False
  then have st: "step_env m X y c st = st" unfolding step_env_def by (simp only: if_False)
  show ?thesis
  proof (cases "snd st")
    case None
    with assms False st show ?thesis by (auto simp: search_inv_env_def)
  next
    case (Some bs)
    with assms have inv: "fst st = info_gain bs" "chosen_first_env m X y cs bs"
      by (simp_all add: search_inv_env_def)
    from False inv(1)
    have "separates X (fst c) (snd c) \<longrightarrow> gain_env m X y (fst c) (snd c) \<le> info_gain bs"
      by auto
    from chosen_first_env_snoc_keep [OF inv(2) this] assms Some st show ?thesis
      by (simp add: search_inv_env_def)
  qed
qed

lemma search_inv_env_fold:
  "search_inv_env m X y b0 cs (fold (step_env m X y) cs (b0, None))"
proof (induction cs rule: rev_induct)
  case Nil
  show ?case by (simp add: search_inv_env_def)
next
  case (snoc c cs)
  from search_inv_env_step [OF snoc] show ?case by simp
qed

lemma chosen_first_env_mem:
  "chosen_first_env m X y cs bs \<Longrightarrow> (feature_index bs, threshold bs) \<in> set cs"
  by (auto simp: chosen_first_env_def)

lemma best_split_env_Some:
  assumes "length y = length X" "best_split_env m X y = Inr (Some bs)"
  shows "info_gain bs = gain_env m X y (feature_index bs) (threshold bs)"
    and "separates X (feature_index bs) (threshold bs)"
    and "chosen_first_env m X y (candidates X) bs"
proof -
  from assms have "snd (fold (step_env m X y) (candidates X) (-1, None)) = Some bs"
    by (simp add: best_split_env_fold)
  with search_inv_env_fold [of m X y "-1" "candidates X"]
  show "info_gain bs = gain_env m X y (feature_index bs) (threshold bs)"
    and "separates X (feature_index bs) (threshold bs)"
    and "chosen_first_env m X y (candidates X) bs"
    by (simp_all add: search_inv_env_def)
qed

lemma best_split_env_total:
  "length y = length X \<Longrightarrow> (\<exists>bs. best_split_env m X y = Inr (Some bs)) \<or> best_split_env m X y = Inr None"
  by (cases "snd (fold (step_env m X y) (candidates X) (-1, None))") (simp_all add: best_split_env_fold)

lemma log2_quarter: "log 2 (1/4) = -2"
proof -
  have "log 2 (1/4) = - log 2 (2 ^ 2)" by (simp add: log_divide)
  also have "log 2 ((2::real) ^ 2) = 2" by (subst log_nat_power) simp_all
  finally show ?thesis by simp
qed

lemma entropy_env_double_three_classes:
  "entropy_env (double_machine c) [0, 0, 1, 2] = 3/2"
  "entropy_env (double_machine c) [0, 0, 0, 0, 0, 0, 0, 0, 1, 1, 1, 1, 2, 2, 2, 2] = 3/2"
  "entropy_env (double_machine c)
     [0, 0, 1, 2, 0, 0, 0, 0, 0, 0, 0, 0, 1, 1, 1, 1, 2, 2, 2, 2] = 3/2"
  by (simp_all add: entropy_env_def double_machine_def unique_def log2_half log2_quarter
      double_round_exact_values)

lemma double_round_twenty:
  "double_round (10808639105689191 / 36028797018963968) =
     1351079888211149 / 4503599627370496"
  "double_round (10808639105689191 / 9007199254740992) =
     1351079888211149 / 1125899906842624"
  "double_round (6755399441055745 / 4503599627370496) =
     6755399441055745 / 4503599627370496"
  "double_round (- (1 / 4503599627370496)) = - (1 / 4503599627370496)"
proof -
  show "double_round (10808639105689191 / 36028797018963968) =
     1351079888211149 / 4503599627370496"
    by (subst double_round_small [of 2]) (simp_all add: round_half_even_def)
  show "double_round (10808639105689191 / 9007199254740992) =
     1351079888211149 / 1125899906842624"
    by (subst double_round_large [of 0]) (simp_all add: round_half_even_def)
  show "double_round (6755399441055745 / 4503599627370496) =
     6755399441055745 / 4503599627370496"
    by (subst double_round_large [of 0]) (simp_all add: round_half_even_def)
  show "double_round (- (1 / 4503599627370496)) = - (1 / 4503599627370496)"
    by (subst double_round_small [of 52]) (simp_all add: round_half_even_def)
qed

lemma gain_env_double_twenty:
  "gain_env (double_machine c)
     [[0], [0], [0], [0], [1], [1], [1], [1], [1], [1], [1], [1], [1], [1], [1], [1],
      [1], [1], [1], [1]]
     [0, 0, 1, 2, 0, 0, 0, 0, 0, 0, 0, 0, 1, 1, 1, 1, 2, 2, 2, 2] 0 0 = - (1 / 2 ^ 52)"
  apply (simp add: gain_env_def column_def select_def Let_def entropy_env_double_three_classes)
  apply (simp add: double_machine_def double_round_fifths double_round_twenty)
  done

subsection \<open>The exact machine\<close>

lemma entropy_env_exact:
  assumes "rnd m = (\<lambda>x. x)" "np_log2 m = log 2"
  shows "entropy_env m y = entropy y"
  by (simp add: entropy_env_def entropy_def proportion_def assms Let_def)

lemma information_gain_env_exact:
  assumes "rnd m = (\<lambda>x. x)" "np_log2 m = log 2"
  shows "information_gain_env m parent l r = information_gain parent l r"
  by (simp add: information_gain_env_def information_gain_def entropy_env_exact [OF assms]
      assms(1) Let_def)

lemma gain_env_exact:
  assumes "rnd m = (\<lambda>x. x)" "np_log2 m = log 2"
  shows "gain_env m X y fi th = gain_at X y fi th"
  by (simp add: gain_env_def gain_at_def entropy_env_exact [OF assms] assms(1) Let_def)

lemma threshold_loop_env_exact:
  assumes "rnd m = (\<lambda>x. x)" "np_log2 m = log 2"
  shows "threshold_loop_env m vs y fi ths st = threshold_loop vs y fi ths st"
  by (induction ths arbitrary: st)
    (simp_all add: information_gain_env_exact [OF assms] Let_def
      cong: sum.case_cong if_cong)

lemma feature_loop_env_exact:
  assumes "rnd m = (\<lambda>x. x)" "np_log2 m = log 2"
  shows "feature_loop_env m X y fis st = feature_loop X y fis st"
  by (induction fis arbitrary: st)
    (simp_all add: threshold_loop_env_exact [OF assms] cong: sum.case_cong)

lemma best_split_env_exact:
  assumes "rnd m = (\<lambda>x. x)" "np_log2 m = log 2"
  shows "best_split_env m X y = best_split X y"
  by (simp add: best_split_env_def best_split_def feature_loop_env_exact [OF assms])

lemma exact_machine_simps [simp]:
  "rnd (exact_machine cap) = (\<lambda>x. x)" "np_log2 (exact_machine cap) = log 2"
  "counters (exact_machine cap) = cap"
  by (simp_all add: exact_machine_def)

lemma double_machine_counters [simp]: "counters (double_machine cap) = cap"
  by (simp add: double_machine_def)

subsection \<open>What the split search of the machine returns\<close>

lemma best_split_env_double_twenty:
  "best_split_env (double_machine c)
     [[0], [0], [0], [0], [1], [1], [1], [1], [1], [1], [1], [1], [1], [1], [1], [1],
      [1], [1], [1], [1]]
     [0, 0, 1, 2, 0, 0, 0, 0, 0, 0, 0, 0, 1, 1, 1, 1, 2, 2, 2, 2] =
   Inr (Some \<lparr>feature_index = 0, threshold = 0, info_gain = - (1 / 2 ^ 52)\<rparr>)"
proof -
  let ?X = "[[0::real], [0], [0], [0], [1], [1], [1], [1], [1], [1], [1], [1], [1], [1],
             [1], [1], [1], [1], [1], [1]]"
  have c: "candidates ?X = [(0, 0), (0, 1)]"
    by (simp add: candidates_def shape1_def column_def unique_def)
  have s0: "separates ?X 0 0" and s1: "\<not> separates ?X 0 1"
    by (simp_all add: separates_def column_def)
  show ?thesis
    by (subst best_split_env_fold)
      (simp_all add: c step_env_def s0 s1 gain_env_double_twenty)
qed

text \<open>
  C2, as the code has it. When the lengths of \<open>X\<close> and \<open>y\<close> agree and the split search
  returns a split, on any machine: the split is a candidate (a feature index below
  the width, with a value of that feature's column as threshold, each such pair
  enumerated once), both its sides are non-empty, its gain is what \<open>information_gain\<close>
  returns on the machine for the labels of its two sides, this gain is above -1, the
  start value of \<open>best_gain\<close>, and at least the gain computed for every candidate with
  two non-empty sides, and the split is the first candidate of the enumeration with
  the largest computed gain. The gain is at least 0 on a machine that does not round;
  on the machine of the notebook a gain can be rounded below 0.
\<close>

theorem best_split_env_maximal:
  assumes "length y = length X" and "best_split_env m X y = Inr (Some bs)"
  shows "set (candidates X) = {(fi, th). fi < shape1 X \<and> th \<in> set (column X fi)} \<and>
         distinct (candidates X) \<and>
         feature_index bs < shape1 X \<and>
         threshold bs \<in> set (column X (feature_index bs)) \<and>
         separates X (feature_index bs) (threshold bs) \<and>
         information_gain_env m y
           (select y (map (\<lambda>v. v \<le> threshold bs) (column X (feature_index bs))))
           (select y (map Not (map (\<lambda>v. v \<le> threshold bs) (column X (feature_index bs)))))
           = Inr (info_gain bs) \<and>
         info_gain bs = gain_env m X y (feature_index bs) (threshold bs) \<and>
         - 1 < info_gain bs \<and>
         (\<forall>fi th. fi < shape1 X \<and> th \<in> set (column X fi) \<and> separates X fi th \<longrightarrow>
                  gain_env m X y fi th \<le> info_gain bs) \<and>
         chosen_first_env m X y (candidates X) bs \<and>
         (rnd m = (\<lambda>x. x) \<and> np_log2 m = log 2 \<longrightarrow> 0 \<le> info_gain bs)"
proof -
  note bs = best_split_env_Some [OF assms]
  from chosen_first_env_mem [OF bs(3)]
  have mem: "feature_index bs < shape1 X \<and> threshold bs \<in> set (column X (feature_index bs))"
    by (simp add: set_candidates)
  from bs(2) assms(1) have ne: "y \<noteq> []" using separates_nonempty by fastforce
  have ig: "information_gain_env m y
           (select y (map (\<lambda>v. v \<le> threshold bs) (column X (feature_index bs))))
           (select y (map Not (map (\<lambda>v. v \<le> threshold bs) (column X (feature_index bs)))))
           = Inr (info_gain bs)"
    using information_gain_env_select [OF ne, of m "threshold bs" X "feature_index bs"]
      bs(1) by simp
  from assms(2) have "snd (fold (step_env m X y) (candidates X) (-1, None)) = Some bs"
    by (simp add: best_split_env_fold [OF assms(1)])
  with search_inv_env_fold [of m X y "-1" "candidates X"]
  have above: "- 1 < info_gain bs" by (simp add: search_inv_env_def)
  have best: "\<forall>fi th. fi < shape1 X \<and> th \<in> set (column X fi) \<and> separates X fi th \<longrightarrow>
                  gain_env m X y fi th \<le> info_gain bs"
  proof (intro allI impI)
    fix fi th
    assume a: "fi < shape1 X \<and> th \<in> set (column X fi) \<and> separates X fi th"
    then have "(fi, th) \<in> set (candidates X)" by (simp add: set_candidates)
    from chosen_first_env_bound [OF bs(3) this _ bs(1)] a
    show "gain_env m X y fi th \<le> info_gain bs" by simp
  qed
  have exact: "0 \<le> info_gain bs" if "rnd m = (\<lambda>x. x) \<and> np_log2 m = log 2"
    using gain_env_exact [of m X y] that gain_at_nonneg [OF assms(1) ne] bs(1) by simp
  from mem bs above best ig exact set_candidates [of X] distinct_candidates [of X]
  show ?thesis by blast
qed

lemma best_split_env_exact_two_rows:
  "best_split_env (exact_machine c) [[0], [1]] [0, 1] =
     Inr (Some \<lparr>feature_index = 0, threshold = 0, info_gain = 1\<rparr>)"
  by (simp add: best_split_env_exact best_split_two_rows)

theorem best_split_env_maximal_witness:
  "length [0, 0, 1, 2, 0, 0, 0, 0, 0, 0, 0, 0, 1, 1, 1, 1, 2, 2, 2, 2::int] =
     length [[0::real], [0], [0], [0], [1], [1], [1], [1], [1], [1], [1], [1], [1], [1],
             [1], [1], [1], [1], [1], [1]] \<and>
   best_split_env (double_machine 3)
     [[0], [0], [0], [0], [1], [1], [1], [1], [1], [1], [1], [1], [1], [1], [1], [1],
      [1], [1], [1], [1]]
     [0, 0, 1, 2, 0, 0, 0, 0, 0, 0, 0, 0, 1, 1, 1, 1, 2, 2, 2, 2] =
     Inr (Some \<lparr>feature_index = 0, threshold = 0, info_gain = - (1 / 2 ^ 52)\<rparr>) \<and>
   - 1 < - (1 / 2 ^ 52 :: real) \<and>
   chosen_first_env (double_machine 3)
     [[0], [0], [0], [0], [1], [1], [1], [1], [1], [1], [1], [1], [1], [1], [1], [1],
      [1], [1], [1], [1]]
     [0, 0, 1, 2, 0, 0, 0, 0, 0, 0, 0, 0, 1, 1, 1, 1, 2, 2, 2, 2]
     (candidates
        [[0], [0], [0], [0], [1], [1], [1], [1], [1], [1], [1], [1], [1], [1], [1], [1],
         [1], [1], [1], [1]])
     \<lparr>feature_index = 0, threshold = 0, info_gain = - (1 / 2 ^ 52)\<rparr> \<and>
   length [0, 1::int] = length [[0::real], [1]] \<and>
   rnd (exact_machine 3) = (\<lambda>x. x) \<and> np_log2 (exact_machine 3) = log 2 \<and>
   best_split_env (exact_machine 3) [[0], [1]] [0, 1] =
     Inr (Some \<lparr>feature_index = 0, threshold = 0, info_gain = 1\<rparr>) \<and>
   (0::real) \<le> 1"
proof -
  let ?X = "[[0::real], [0], [0], [0], [1], [1], [1], [1], [1], [1], [1], [1], [1], [1],
             [1], [1], [1], [1], [1], [1]]"
  let ?y = "[0, 0, 1, 2, 0, 0, 0, 0, 0, 0, 0, 0, 1, 1, 1, 1, 2, 2, 2, 2::int]"
  let ?bs = "\<lparr>feature_index = 0, threshold = 0, info_gain = - (1 / 2 ^ 52 :: real)\<rparr>"
  have len: "length ?y = length ?X" by simp
  note t = best_split_env_maximal [OF len best_split_env_double_twenty, of 3]
  from t have a: "- 1 < info_gain ?bs" by blast
  from t have b: "chosen_first_env (double_machine 3) ?X ?y (candidates ?X) ?bs" by blast
  have len2: "length [0, 1::int] = length [[0::real], [1]]" by simp
  note u = best_split_env_maximal [OF len2 best_split_env_exact_two_rows, of 3]
  have ex: "rnd (exact_machine 3) = (\<lambda>x. x)" "np_log2 (exact_machine 3) = log 2"
    by simp_all
  from u ex have c: "0 \<le> info_gain \<lparr>feature_index = 0, threshold = 0, info_gain = 1::real\<rparr>"
    by blast
  from len best_split_env_double_twenty [of 3] a b len2 ex
    best_split_env_exact_two_rows [of 3] c
  show ?thesis by simp
qed

text \<open>
  On the machine of the notebook the only separating split of these twenty rows is
  returned with the gain \<open>-2^(-52)\<close>: the labels of both sides and of the parent have
  the entropy 3/2, and the weighted sum of the two is rounded to \<open>3/2 + 2^(-52)\<close>.
\<close>

theorem best_split_returns_negative_gain:
  "best_split_env (double_machine 3)
     [[0], [0], [0], [0], [1], [1], [1], [1], [1], [1], [1], [1], [1], [1], [1], [1],
      [1], [1], [1], [1]]
     [0, 0, 1, 2, 0, 0, 0, 0, 0, 0, 0, 0, 1, 1, 1, 1, 2, 2, 2, 2] =
     Inr (Some \<lparr>feature_index = 0, threshold = 0, info_gain = - (1 / 2 ^ 52)\<rparr>) \<and>
   - (1 / 2 ^ 52) < (0::real)"
  by (simp add: best_split_env_double_twenty)

subsection \<open>The tree builder of the machine\<close>

lemma labels_fit_nonneg: "labels_fit m y \<Longrightarrow> list_all (\<lambda>v. 0 \<le> v) y"
  by (auto simp: labels_fit_def list_all_iff)

lemma labels_fit_select: "labels_fit m y \<Longrightarrow> labels_fit m (select y msk)"
  unfolding labels_fit_def by (rule list_all_select)

lemma labels_fit_select_both:
  "length msk = length y \<Longrightarrow> labels_fit m (select y msk) \<Longrightarrow>
     labels_fit m (select y (map Not msk)) \<Longrightarrow> labels_fit m y"
  unfolding labels_fit_def by (rule list_all_select_both)

lemma bincount_env_fit:
  assumes "labels_fit m y"
  shows "bincount_env m y = bincount y"
proof (cases "y = []")
  case True
  then show ?thesis by (simp add: bincount_env_def bincount_def)
next
  case False
  then have "Max (set y) \<in> set y" by simp
  with assms have b: "0 \<le> Max (set y)" "Max (set y) + 1 < 2 ^ 60"
    "Max (set y) < int (counters m)"
    by (auto simp: labels_fit_def list_all_iff)
  from b(1) have eq: "nat (Max (set y) + 1) = nat (Max (set y)) + 1" by simp
  have nn: "\<not> list_ex (\<lambda>v. v < 0) y"
    using labels_fit_nonneg [OF assms] by (simp add: list_ex_negative)
  from b(2) have c1: "\<not> 2 ^ 60 \<le> Max (set y) + 1" by simp
  from b(3) have c2: "\<not> int (counters m) < Max (set y) + 1" by simp
  show ?thesis unfolding bincount_env_def bincount_def Let_def
    by (simp only: nn False c1 c2 eq if_False)
qed

lemma bincount_env_negative:
  "\<not> list_all (\<lambda>v. 0 \<le> v) y \<Longrightarrow> bincount_env m y = Inl ValueError"
  by (simp add: bincount_env_def list_ex_negative)

lemma bincount_env_unfit:
  assumes "\<not> labels_fit m y"
  shows "bincount_env m y = Inl ValueError \<or> bincount_env m y = Inl MemoryError"
proof (cases "list_all (\<lambda>v. 0 \<le> v) y")
  case False
  then show ?thesis by (simp add: bincount_env_negative)
next
  case True
  from assms obtain v where v: "v \<in> set y"
    "\<not> (0 \<le> v \<and> v + 1 < 2 ^ 60 \<and> v < int (counters m))"
    by (auto simp: labels_fit_def list_all_iff)
  then have ne: "y \<noteq> []" by auto
  from v(1) have le: "v \<le> Max (set y)" by simp
  from True v(1) have v0: "0 \<le> v" by (auto simp: list_all_iff)
  with v(2) le have "2 ^ 60 \<le> Max (set y) + 1 \<or> int (counters m) < Max (set y) + 1"
    by linarith
  with ne True show ?thesis
    by (auto simp: bincount_env_def Let_def list_ex_negative)
qed

lemma make_leaf_env_fit: "labels_fit m y \<Longrightarrow> make_leaf_env m y = make_leaf y"
  by (simp add: make_leaf_env_def leaf_value_env_def make_leaf_def leaf_value_def
      bincount_env_fit)

lemma make_leaf_env_unfit:
  assumes "\<not> labels_fit m y"
  shows "make_leaf_env m y = Inl ValueError \<or> make_leaf_env m y = Inl MemoryError"
  using bincount_env_unfit [OF assms] by (auto simp: make_leaf_env_def leaf_value_env_def)

lemma make_leaf_env_empty: "make_leaf_env m [] = Inl ValueError"
  by (simp add: make_leaf_env_def leaf_value_env_def bincount_env_def argmax_def)

lemma make_leaf_env_majority:
  assumes "y \<noteq> []" "labels_fit m y"
  shows "\<exists>v. make_leaf_env m y = Inr (Leaf v) \<and> majority_label y v"
  using make_leaf_majority [OF assms(1) labels_fit_nonneg [OF assms(2)]]
  by (simp add: make_leaf_env_fit [OF assms(2)])


lemma build_tree_env_leaf_case:
  "stopping self X y depth \<or> best_split_env m X y = Inr None \<Longrightarrow>
     build_tree_env m self X y depth = make_leaf_env m y"
  by (subst build_tree_env.simps) auto

lemma build_tree_env_node_case:
  assumes len: "length y = length X"
    and ns: "\<not> stopping self X y depth"
    and bs: "best_split_env m X y = Inr (Some bs)"
  defines "lm \<equiv> map (\<lambda>v. v \<le> threshold bs) (column X (feature_index bs))"
  shows "build_tree_env m self X y depth =
           (case build_tree_env m self (select X lm) (select y lm) (depth + 1) of
              Inl e \<Rightarrow> Inl e
            | Inr left \<Rightarrow>
                (case build_tree_env m self (select X (map Not lm)) (select y (map Not lm))
                        (depth + 1) of
                   Inl e \<Rightarrow> Inl e
                 | Inr right \<Rightarrow>
                     Inr (Decision (feature_index bs) (threshold bs) (info_gain bs)
                            left right)))"
    and "length (select y lm) = length (select X lm)"
    and "length (select y (map Not lm)) = length (select X (map Not lm))"
    and "select y lm \<noteq> []" and "select y (map Not lm) \<noteq> []"
    and "length (select X lm) < length X" and "length (select X (map Not lm)) < length X"
proof -
  have lml: "length lm = length X" by (simp add: lm_def)
  have sep: "separates X (feature_index bs) (threshold bs)"
    using best_split_env_separates [OF bs] .
  then have tf: "True \<in> set lm" "False \<in> set lm"
    unfolding lm_def by (simp_all only: separates_iff)
  have ms: "mask_select X lm = Inr (select X lm)" "mask_select y lm = Inr (select y lm)"
    "mask_select X (map Not lm) = Inr (select X (map Not lm))"
    "mask_select y (map Not lm) = Inr (select y (map Not lm))"
    using lml len by (simp_all add: mask_select_same_length)
  show "build_tree_env m self X y depth =
           (case build_tree_env m self (select X lm) (select y lm) (depth + 1) of
              Inl e \<Rightarrow> Inl e
            | Inr left \<Rightarrow>
                (case build_tree_env m self (select X (map Not lm)) (select y (map Not lm))
                        (depth + 1) of
                   Inl e \<Rightarrow> Inl e
                 | Inr right \<Rightarrow>
                     Inr (Decision (feature_index bs) (threshold bs) (info_gain bs)
                            left right)))"
    by (subst build_tree_env.simps)
      (simp add: ns bs Let_def ms lm_def [symmetric] cong: sum.case_cong)
  show "length (select y lm) = length (select X lm)"
    using len lml by (simp add: length_select)
  show "length (select y (map Not lm)) = length (select X (map Not lm))"
    using len lml by (simp add: length_select)
  show "select y lm \<noteq> []"
    using mask_select_nonempty [OF ms(2)] tf by simp
  show "select y (map Not lm) \<noteq> []"
    using mask_select_nonempty [OF ms(4)] tf by (simp only: set_right_mask length_0_conv)
  show "length (select X lm) < length X"
    using mask_select_shorter [OF ms(1)] tf by simp
  show "length (select X (map Not lm)) < length X"
    using mask_select_shorter [OF ms(3)] tf by (simp only: set_right_mask)
qed

lemma build_tree_env_total:
  "length y = length X \<Longrightarrow> y \<noteq> [] \<Longrightarrow> labels_fit m y \<Longrightarrow>
     \<exists>t. build_tree_env m self X y depth = Inr t"
proof (induction "length X" arbitrary: X y depth rule: less_induct)
  case less
  show ?case
  proof (cases "stopping self X y depth \<or> best_split_env m X y = Inr None")
    case True
    from build_tree_env_leaf_case [OF True] make_leaf_env_majority [OF less.prems(2,3)]
    show ?thesis by auto
  next
    case False
    with best_split_env_total [OF less.prems(1)] obtain bs
      where bs: "best_split_env m X y = Inr (Some bs)" by blast
    from False have ns: "\<not> stopping self X y depth" by simp
    note nc = build_tree_env_node_case [OF less.prems(1) ns bs]
    let ?lm = "map (\<lambda>v. v \<le> threshold bs) (column X (feature_index bs))"
    from less.hyps [OF nc(6) nc(2) nc(4) labels_fit_select [OF less.prems(3)]]
    obtain l where l: "build_tree_env m self (select X ?lm) (select y ?lm) (depth + 1) = Inr l"
      by blast
    from less.hyps [OF nc(7) nc(3) nc(5) labels_fit_select [OF less.prems(3)]]
    obtain r where r: "build_tree_env m self (select X (map Not ?lm))
                         (select y (map Not ?lm)) (depth + 1) = Inr r"
      by blast
    from nc(1) l r show ?thesis by simp
  qed
qed

lemma build_tree_env_unfit:
  "length y = length X \<Longrightarrow> \<not> labels_fit m y \<Longrightarrow>
     build_tree_env m self X y depth = Inl ValueError \<or>
     build_tree_env m self X y depth = Inl MemoryError"
proof (induction "length X" arbitrary: X y depth rule: less_induct)
  case less
  show ?case
  proof (cases "stopping self X y depth \<or> best_split_env m X y = Inr None")
    case True
    from build_tree_env_leaf_case [OF True] make_leaf_env_unfit [OF less.prems(2)]
    show ?thesis by simp
  next
    case False
    with best_split_env_total [OF less.prems(1)] obtain bs
      where bs: "best_split_env m X y = Inr (Some bs)" by blast
    from False have ns: "\<not> stopping self X y depth" by simp
    note nc = build_tree_env_node_case [OF less.prems(1) ns bs]
    let ?lm = "map (\<lambda>v. v \<le> threshold bs) (column X (feature_index bs))"
    have lml: "length ?lm = length y" using less.prems(1) by simp
    show ?thesis
    proof (cases "labels_fit m (select y ?lm)")
      case nl: False
      from less.hyps [OF nc(6) nc(2) nl, of "depth + 1"] nc(1)
      show ?thesis by auto
    next
      case True
      from build_tree_env_total [OF nc(2) nc(4) True, of self "depth + 1"]
      obtain l where l: "build_tree_env m self (select X ?lm) (select y ?lm) (depth + 1) = Inr l"
        by blast
      from labels_fit_select_both [OF lml True] less.prems(2)
      have nr: "\<not> labels_fit m (select y (map Not ?lm))" by blast
      from less.hyps [OF nc(7) nc(3) nr, of "depth + 1"] nc(1) l
      show ?thesis by auto
    qed
  qed
qed


lemma best_split_env_no_columns: "shape1 X = 0 \<Longrightarrow> best_split_env m X y = Inr None"
  by (simp add: best_split_env_def)

lemma threshold_loop_env_mismatch:
  "length y \<noteq> length vs \<Longrightarrow> ths \<noteq> [] \<Longrightarrow>
     threshold_loop_env m vs y fi ths st = Inl IndexError"
  by (cases ths) (simp_all add: mask_select_def Let_def)

lemma best_split_env_mismatch:
  assumes "length y \<noteq> length X" "0 < shape1 X"
  shows "best_split_env m X y = Inl IndexError"
proof -
  from assms(2) have ne: "X \<noteq> []" by (auto simp: shape1_def)
  then have "unique (column X 0) \<noteq> []" by (simp add: unique_nonempty column_def)
  with assms(1)
  have "threshold_loop_env m (column X 0) y 0 (unique (column X 0)) (-1, None)
          = Inl IndexError"
    by (simp add: threshold_loop_env_mismatch)
  moreover from assms(2) have "[0..<shape1 X] = 0 # [1..<shape1 X]"
    by (simp add: upt_conv_Cons)
  ultimately show ?thesis by (simp add: best_split_env_def)
qed

lemma build_tree_env_mismatch:
  assumes "length y \<noteq> length X"
  shows "build_tree_env m self X y depth =
           (if \<not> stopping self X y depth \<and> 0 < shape1 X then Inl IndexError
            else make_leaf_env m y)"
proof (cases "\<not> stopping self X y depth \<and> 0 < shape1 X")
  case True
  with best_split_env_mismatch [OF assms] show ?thesis
    by (subst build_tree_env.simps) simp
next
  case False
  then have "stopping self X y depth \<or> best_split_env m X y = Inr None"
    using best_split_env_no_columns [of X m y] by auto
  from build_tree_env_leaf_case [OF this] False show ?thesis by auto
qed

subsection \<open>Runs on the machine of the notebook\<close>



lemmas leaf_env_defs =
  make_leaf_env_def leaf_value_env_def bincount_env_def argmax_def stopping_def Let_def





subsection \<open>Leaves of the tree builder of the machine\<close>




subsection \<open>Termination and depth on the machine\<close>






subsection \<open>Labels that \<open>fit\<close> accepts\<close>



subsection \<open>Input that \<open>fit\<close> does not validate\<close>

text \<open>
  C5, as the code has it. \<open>fit\<close> has no validation step. With no rows and no labels
  it returns the error ValueError, which \<open>np.argmax\<close> raises on the empty count array
  when the root leaf is built. With rows but no columns and as many labels as rows, it
  returns a tree that is one leaf with the majority label when no label is negative
  and \<open>np.bincount\<close> obtains its counters for the largest label, and the error
  ValueError or MemoryError of \<open>np.bincount\<close> otherwise. With a number of labels that
  differs from the number of rows, the root is a leaf built from \<open>y\<close> alone when a
  stopping criterion holds or \<open>X\<close> has no columns; otherwise the first mask indexing
  of the split search raises IndexError.
\<close>

theorem fit_env_without_validation:
  "fit_env m self [] [] = Inl ValueError \<and>
   (X \<noteq> [] \<and> shape1 X = 0 \<and> length y = length X \<and> labels_fit m y \<longrightarrow>
      (\<exists>v. majority_label y v \<and>
           fit_env m self X y =
             Inr (self\<lparr>n_classes := Some (length (unique y)), n_features := Some 0,
                       root_node := Some (Leaf v)\<rparr>))) \<and>
   (X \<noteq> [] \<and> shape1 X = 0 \<and> length y = length X \<and> \<not> labels_fit m y \<longrightarrow>
      fit_env m self X y = Inl ValueError \<or> fit_env m self X y = Inl MemoryError) \<and>
   (length y \<noteq> length X \<longrightarrow>
      build_tree_env m self X y 0 =
        (if \<not> stopping self X y 0 \<and> 0 < shape1 X then Inl IndexError
         else make_leaf_env m y) \<and>
      (\<not> stopping self X y 0 \<and> 0 < shape1 X \<longrightarrow> fit_env m self X y = Inl IndexError))"
proof -
  have "best_split_env m [] [] = Inr None"
    by (simp add: best_split_env_no_columns shape1_def)
  then have "build_tree_env m self [] [] 0 = make_leaf_env m []"
    by (simp add: build_tree_env_leaf_case)
  then have a: "fit_env m self [] [] = Inl ValueError"
    by (simp add: fit_env_def make_leaf_env_empty)
  have b: "\<exists>v. majority_label y v \<and>
           fit_env m self X y =
             Inr (self\<lparr>n_classes := Some (length (unique y)), n_features := Some 0,
                       root_node := Some (Leaf v)\<rparr>)"
    if h: "X \<noteq> [] \<and> shape1 X = 0 \<and> length y = length X \<and> labels_fit m y"
  proof -
    from h have ne: "y \<noteq> []" by auto
    from h make_leaf_env_majority [OF ne] obtain v
      where v: "make_leaf_env m y = Inr (Leaf v)" "majority_label y v" by blast
    from h have "best_split_env m X y = Inr None" by (simp add: best_split_env_no_columns)
    then have "build_tree_env m self X y 0 = make_leaf_env m y"
      by (simp add: build_tree_env_leaf_case)
    with v h show ?thesis by (auto simp: fit_env_def)
  qed
  have u: "fit_env m self X y = Inl ValueError \<or> fit_env m self X y = Inl MemoryError"
    if h: "X \<noteq> [] \<and> shape1 X = 0 \<and> length y = length X \<and> \<not> labels_fit m y"
  proof -
    from h have len: "length y = length X" and nf: "\<not> labels_fit m y" by simp_all
    from build_tree_env_unfit [OF len nf, of self 0] show ?thesis
      by (auto simp: fit_env_def)
  qed
  have c: "build_tree_env m self X y 0 =
        (if \<not> stopping self X y 0 \<and> 0 < shape1 X then Inl IndexError
         else make_leaf_env m y) \<and>
      (\<not> stopping self X y 0 \<and> 0 < shape1 X \<longrightarrow> fit_env m self X y = Inl IndexError)"
    if "length y \<noteq> length X"
    using build_tree_env_mismatch [OF that, of m self 0] by (simp add: fit_env_def)
  from a b u c show ?thesis by blast
qed

theorem fit_env_without_validation_witness:
  "[[], []] \<noteq> ([]::real list list) \<and> shape1 [[], []] = 0 \<and>
   length [0, 0::int] = length [[], []::real list] \<and>
   labels_fit (double_machine 2) [0, 0] \<and>
   fit_env (double_machine 2) (init None 2) [[], []] [0, 0] =
     Inr \<lparr>max_depth = None, min_samples_split = 2, n_classes = Some 1,
          n_features = Some 0, root_node = Some (Leaf 0)\<rparr> \<and>
   \<not> labels_fit (double_machine 2) [2, 2] \<and>
   fit_env (double_machine 2) (init None 2) [[], []] [2, 2] = Inl MemoryError \<and>
   length [0, 1, 1::int] \<noteq> length [[0::real], [1]] \<and>
   \<not> stopping (init None 2) [[0], [1]] [0, 1, 1] 0 \<and> 0 < shape1 [[0], [1]] \<and>
   fit_env (double_machine 2) (init None 2) [[0], [1]] [0, 1, 1] = Inl IndexError \<and>
   fit_env (double_machine 2) (init None 2) [] [] = Inl ValueError"
proof -
  let ?X = "[[], []::real list]" and ?y = "[0, 0::int]" and ?m = "double_machine 2"
  have h: "?X \<noteq> [] \<and> shape1 ?X = 0 \<and> length ?y = length ?X \<and> labels_fit ?m ?y"
    by (simp add: shape1_def labels_fit_def)
  have m0: "majority_label ?y 0" by (simp add: majority_label_def)
  from fit_env_without_validation [of ?m "init None 2" ?X ?y] h obtain v where
    v: "majority_label ?y v"
    "fit_env ?m (init None 2) ?X ?y =
       Inr ((init None 2)\<lparr>n_classes := Some (length (unique ?y)), n_features := Some 0,
                       root_node := Some (Leaf v)\<rparr>)"
    by blast
  from majority_label_unique [OF v(1) m0] v(2)
  have f: "fit_env ?m (init None 2) ?X ?y =
     Inr \<lparr>max_depth = None, min_samples_split = 2, n_classes = Some 1,
          n_features = Some 0, root_node = Some (Leaf 0)\<rparr>"
    by (simp add: init_def unique_def)
  have k: "?X \<noteq> [] \<and> shape1 ?X = 0 \<and> length [2, 2::int] = length ?X \<and>
           \<not> labels_fit ?m [2, 2]"
    by (simp add: shape1_def labels_fit_def)
  have "build_tree_env ?m (init None 2) ?X [2, 2] 0 = Inl MemoryError"
    by (subst build_tree_env.simps) (simp add: leaf_env_defs unique_def)
  then have nv: "fit_env ?m (init None 2) ?X [2, 2] \<noteq> Inl ValueError"
    by (simp add: fit_env_def)
  from fit_env_without_validation [of ?m "init None 2" ?X "[2, 2]"] k nv
  have me: "fit_env ?m (init None 2) ?X [2, 2] = Inl MemoryError" by blast
  have g: "length [0, 1, 1::int] \<noteq> length [[0::real], [1]]"
    "\<not> stopping (init None 2) [[0], [1]] [0, 1, 1] 0" "0 < shape1 [[0::real], [1]]"
    by (simp_all add: stopping_def unique_def shape1_def)
  from fit_env_without_validation [of ?m "init None 2" "[[0], [1]]" "[0, 1, 1]"] g
  have i: "fit_env ?m (init None 2) [[0], [1]] [0, 1, 1] = Inl IndexError" by blast
  from fit_env_without_validation [of ?m "init None 2"]
  have e: "fit_env ?m (init None 2) [] [] = Inl ValueError" by blast
  from h f k me g i e show ?thesis by blast
qed

text \<open>
  Rows without columns, and two labels for one row: \<open>fit\<close> returns a tree of one
  leaf in both cases.
\<close>

theorem fit_accepts_zero_columns:
  "shape1 [[], []] = 0 \<and>
   fit_env (double_machine 2) (init None 2) [[], []] [0, 0] =
     Inr \<lparr>max_depth = None, min_samples_split = 2, n_classes = Some 1,
          n_features = Some 0, root_node = Some (Leaf 0)\<rparr> \<and>
   length [0, 0::int] \<noteq> length [[0::real]] \<and>
   fit_env (double_machine 2) (init None 2) [[0]] [0, 0] =
     Inr \<lparr>max_depth = None, min_samples_split = 2, n_classes = Some 1,
          n_features = Some 1, root_node = Some (Leaf 0)\<rparr>"
proof -
  have m: "make_leaf_env (double_machine 2) [0, 0] = Inr (Leaf 0)"
    by (simp add: make_leaf_env_fit labels_fit_def leaf_defs)
  have a: "build_tree_env (double_machine 2) (init None 2) [[], []] [0, 0] 0 = Inr (Leaf 0)"
    by (subst build_tree_env.simps) (simp add: stopping_def unique_def m)
  have b: "build_tree_env (double_machine 2) (init None 2) [[0]] [0, 0] 0 = Inr (Leaf 0)"
    by (subst build_tree_env.simps) (simp add: stopping_def unique_def m)
  show ?thesis
    by (simp add: fit_env_def a b) (simp add: init_def unique_def shape1_def)
qed

subsection \<open>The entropy on a machine\<close>

lemma round_half_even_ge: "of_int n \<le> r \<Longrightarrow> n \<le> round_half_even r"
proof -
  assume "of_int n \<le> r"
  then have "n \<le> \<lfloor>r\<rfloor>" by (simp add: le_floor_iff)
  then show ?thesis by (simp add: round_half_even_def Let_def)
qed

lemma round_half_even_le: "r \<le> of_int n \<Longrightarrow> round_half_even r \<le> n"
proof -
  assume a: "r \<le> of_int n"
  have f: "\<lfloor>r\<rfloor> \<le> n" using a by (simp add: floor_le_iff)
  show ?thesis
  proof (cases "r = of_int \<lfloor>r\<rfloor>")
    case True
    then have "r - of_int \<lfloor>r\<rfloor> < 1/2" by simp
    with f show ?thesis by (simp add: round_half_even_def Let_def)
  next
    case False
    with of_int_floor_le [of r] have "of_int \<lfloor>r\<rfloor> < r" by linarith
    with a have "(of_int \<lfloor>r\<rfloor> :: real) < of_int n" by simp
    then have "\<lfloor>r\<rfloor> < n" by simp
    then show ?thesis by (simp add: round_half_even_def Let_def)
  qed
qed

lemma double_round_nonneg: "0 \<le> x \<Longrightarrow> 0 \<le> double_round x"
proof -
  assume a: "0 \<le> x"
  have "0 \<le> round_half_even (x / 2 powr (of_int \<lfloor>log 2 \<bar>x\<bar>\<rfloor> - 52))"
    by (rule round_half_even_ge) (use a in simp)
  then show ?thesis by (simp add: double_round_def Let_def)
qed

lemma double_round_nonpos: "x \<le> 0 \<Longrightarrow> double_round x \<le> 0"
proof -
  assume a: "x \<le> 0"
  have "round_half_even (x / 2 powr (of_int \<lfloor>log 2 \<bar>x\<bar>\<rfloor> - 52)) \<le> 0"
    by (rule round_half_even_le) (use a in \<open>simp add: divide_nonpos_pos\<close>)
  then show ?thesis by (simp add: double_round_def Let_def mult_le_0_iff)
qed

lemma double_round_unit:
  assumes "0 < x" "x \<le> 1"
  shows "0 < double_round x \<and> double_round x \<le> 1"
proof (cases "x = 1")
  case True
  then show ?thesis by (simp add: double_round_exact_values)
next
  case False
  with assms have x1: "x < 1" by simp
  define k where "k = \<lfloor>log 2 x\<rfloor>"
  define ulp where "ulp = (2::real) powr (of_int k - 52)"
  have up: "0 < ulp" by (simp add: ulp_def)
  have "log 2 x < 0" using assms(1) x1 by simp
  then have k: "k \<le> -1" unfolding k_def by (simp add: floor_le_iff)
  have lo: "2 powr of_int k \<le> x"
    using assms(1) of_int_floor_le [of "log 2 x"] by (simp add: k_def powr_le_iff)
  have hi: "x < 2 powr (of_int k + 1)"
  proof -
    have "log 2 x < of_int k + 1" unfolding k_def by linarith
    then show ?thesis using assms(1) by (simp add: less_powr_iff)
  qed
  have e52: "(2::real) powr of_int k / ulp = of_int (2 ^ 52)"
  proof -
    have "(2::real) powr of_int k / ulp = 2 powr (of_int k - (of_int k - 52))"
      unfolding ulp_def by (simp only: powr_diff)
    also have "\<dots> = 2 powr (real 52)" by simp
    also have "\<dots> = 2 ^ 52" by (simp only: two_powr_nat)
    finally show ?thesis by simp
  qed
  have e53: "(2::real) powr (of_int k + 1) / ulp = of_int (2 ^ 53)"
  proof -
    have "(2::real) powr (of_int k + 1) / ulp = 2 powr (of_int k + 1 - (of_int k - 52))"
      unfolding ulp_def by (simp only: powr_diff)
    also have "\<dots> = 2 powr (real 53)" by simp
    also have "\<dots> = 2 ^ 53" by (simp only: two_powr_nat)
    finally show ?thesis by simp
  qed
  have "of_int (2 ^ 52) \<le> x / ulp"
    using divide_right_mono [OF lo, of ulp] up by (simp only: e52)
  then have r_lo: "2 ^ 52 \<le> round_half_even (x / ulp)" by (rule round_half_even_ge)
  have "x / ulp < of_int (2 ^ 53)"
    using divide_strict_right_mono [OF hi up] by (simp only: e53)
  then have "x / ulp \<le> of_int (2 ^ 53)" by (rule less_imp_le)
  then have r_hi: "round_half_even (x / ulp) \<le> 2 ^ 53" by (rule round_half_even_le)
  have dr: "double_round x = of_int (round_half_even (x / ulp)) * ulp"
    using assms(1) by (simp add: double_round_def Let_def ulp_def k_def)
  have "0 < round_half_even (x / ulp)" using r_lo by simp
  then have pos: "0 < double_round x" using up by (simp add: dr)
  have "of_int (round_half_even (x / ulp)) * ulp \<le> of_int (2 ^ 53) * ulp"
    using r_hi up by (intro mult_right_mono) simp_all
  also have "\<dots> = 2 powr (of_int k + 1)"
    using e53 up by (simp add: field_simps)
  also have "\<dots> \<le> 2 powr 0" using k by (intro powr_mono) simp_all
  finally have "double_round x \<le> 1" by (simp add: dr)
  with pos show ?thesis by simp
qed

lemma entropy_env_fold_arguments:
  "entropy_env m y =
     fold (\<lambda>p e. rnd m (e - rnd m (p * np_log2 m p))) (log2_arguments_env m y) 0"
  by (simp add: entropy_env_def log2_arguments_env_def fold_map comp_def Let_def)

lemma log2_arguments_env_count:
  "log2_arguments_env m y =
     map (\<lambda>c. rnd m (real (count_list y c) / real (length y))) (sorted_list_of_set (set y))"
  by (simp add: log2_arguments_env_def length_filter_count unique_def
      sorted_list_of_set_sort_remdups)

lemma entropy_env_exact_sum:
  assumes "rnd m = (\<lambda>x. x)" "np_log2 m = log 2"
  shows "entropy_env m y =
           - (\<Sum>c\<in>set y. real (count_list y c) / real (length y) *
                            log 2 (real (count_list y c) / real (length y)))"
  by (simp add: entropy_env_exact [OF assms] entropy_sum proportion_count)

lemma quotient_unit:
  fixes y :: "int list"
  assumes "c \<in> set y"
  shows "0 < real (length (filter (\<lambda>v. v = c) y)) / real (length y)"
    and "real (length (filter (\<lambda>v. v = c) y)) / real (length y) \<le> 1"
  using proportion_pos [OF assms] proportion_le_1 [of y c] by (simp_all add: proportion_def)

lemma entropy_env_fold_nonneg:
  fixes y :: "int list"
  assumes r0: "\<And>x. 0 \<le> x \<Longrightarrow> 0 \<le> rnd m x"
    and r1: "\<And>x. x \<le> 0 \<Longrightarrow> rnd m x \<le> 0"
    and u: "\<And>x. 0 < x \<Longrightarrow> x \<le> 1 \<Longrightarrow> 0 < rnd m x \<and> rnd m x \<le> 1"
    and l: "\<And>x. 0 < x \<Longrightarrow> x \<le> 1 \<Longrightarrow> np_log2 m x \<le> 0"
  shows "set cs \<subseteq> set y \<Longrightarrow> 0 \<le> e \<Longrightarrow>
     0 \<le> fold (\<lambda>cls e.
             let p = rnd m (real (length (filter (\<lambda>v. v = cls) y)) / real (length y))
             in rnd m (e - rnd m (p * np_log2 m p))) cs e"
proof (induction cs arbitrary: e)
  case Nil
  then show ?case by simp
next
  case (Cons c cs)
  let ?p = "rnd m (real (length (filter (\<lambda>v. v = c) y)) / real (length y))"
  from Cons.prems(1) have c: "c \<in> set y" by simp
  from u [OF quotient_unit [OF c]] have p: "0 < ?p" "?p \<le> 1" by simp_all
  from l [OF p] p(1) have "?p * np_log2 m ?p \<le> 0" by (simp add: mult_le_0_iff)
  from r1 [OF this] Cons.prems(2) have "0 \<le> e - rnd m (?p * np_log2 m ?p)" by simp
  from r0 [OF this] have e': "0 \<le> rnd m (e - rnd m (?p * np_log2 m ?p))" .
  from Cons.prems(1) have "set cs \<subseteq> set y" by simp
  from Cons.IH [OF this e'] show ?case by (simp add: Let_def)
qed

lemma entropy_env_nonneg:
  assumes "\<And>x. 0 \<le> x \<Longrightarrow> 0 \<le> rnd m x"
    and "\<And>x. x \<le> 0 \<Longrightarrow> rnd m x \<le> 0"
    and "\<And>x. 0 < x \<Longrightarrow> x \<le> 1 \<Longrightarrow> 0 < rnd m x \<and> rnd m x \<le> 1"
    and "\<And>x. 0 < x \<Longrightarrow> x \<le> 1 \<Longrightarrow> np_log2 m x \<le> 0"
  shows "0 \<le> entropy_env m y"
  unfolding entropy_env_def
  by (rule entropy_env_fold_nonneg [OF assms]) simp_all

lemma log2_arguments_env_unit:
  assumes "\<And>x. 0 < x \<Longrightarrow> x \<le> 1 \<Longrightarrow> 0 < rnd m x \<and> rnd m x \<le> 1"
  shows "list_all (\<lambda>p. 0 < p \<and> p \<le> 1) (log2_arguments_env m y)"
  unfolding log2_arguments_env_def list_all_iff
proof
  fix p
  assume "p \<in> set (map (\<lambda>cls. rnd m (real (length (filter (\<lambda>v. v = cls) y)) /
                                         real (length y))) (unique y))"
  then obtain c where c: "c \<in> set y"
    and p: "p = rnd m (real (length (filter (\<lambda>v. v = c) y)) / real (length y))"
    by auto
  from assms [OF quotient_unit [OF c]] p show "0 < p \<and> p \<le> 1" by simp
qed

lemma entropy_env_single:
  assumes "card (set y) = 1" "rnd m 0 = 0" "rnd m 1 = 1" "np_log2 m 1 = 0"
  shows "entropy_env m y = 0"
proof -
  from assms(1) obtain c where c: "set y = {c}" by (auto simp: card_1_singleton_iff)
  then have u: "unique y = [c]"
    by (simp add: unique_def sorted_list_of_set_sort_remdups [symmetric])
  from c have "filter (\<lambda>v. v = c) y = y" by (auto simp: filter_id_conv)
  moreover from c have "y \<noteq> []" by auto
  ultimately have "real (length (filter (\<lambda>v. v = c) y)) / real (length y) = 1" by simp
  then show ?thesis by (simp add: entropy_env_def u assms Let_def)
qed

lemma double_machine_fields:
  "rnd (double_machine cap) = double_round"
  "np_log2 (double_machine cap) = (\<lambda>x. double_round (log 2 x))"
  by (simp_all add: double_machine_def)

lemma exact_machine_fields:
  "rnd (exact_machine cap) = (\<lambda>x. x)" "np_log2 (exact_machine cap) = log 2"
  by (simp_all add: exact_machine_def)

lemma entropy_env_double_nonneg:
  assumes "rnd m = double_round" and "\<And>x. 0 < x \<Longrightarrow> x \<le> 1 \<Longrightarrow> np_log2 m x \<le> 0"
  shows "0 \<le> entropy_env m y"
proof (rule entropy_env_nonneg)
  fix x :: real
  show "0 \<le> x \<Longrightarrow> 0 \<le> rnd m x" by (simp add: assms(1) double_round_nonneg)
  show "x \<le> 0 \<Longrightarrow> rnd m x \<le> 0" by (simp add: assms(1) double_round_nonpos)
  show "0 < x \<Longrightarrow> x \<le> 1 \<Longrightarrow> 0 < rnd m x \<and> rnd m x \<le> 1"
    by (simp add: assms(1) double_round_unit)
  show "0 < x \<Longrightarrow> x \<le> 1 \<Longrightarrow> np_log2 m x \<le> 0" by (rule assms(2))
qed

lemma entropy_env_exact_nonneg: "0 \<le> entropy_env (exact_machine cap) y"
  by (simp add: entropy_env_exact [OF exact_machine_fields] entropy_nonneg)

lemma double_machine_log2:
  "np_log2 (double_machine cap) 1 = 0"
  "0 < x \<Longrightarrow> x \<le> 1 \<Longrightarrow> np_log2 (double_machine cap) x \<le> 0"
  by (simp_all add: double_machine_fields double_round_exact_values double_round_nonpos)

text \<open>
  C7. For a non-empty label sequence \<open>y\<close>, the arguments \<open>np.log2\<close> receives are the
  quotients \<open>count(c) / len(y)\<close> of the classes \<open>c\<close> present in \<open>y\<close>, in ascending
  order of the classes, each rounded by the machine, and \<open>entropy y\<close> subtracts
  \<open>p * log2 p\<close> for each of them from 0. On the exact machine that is the sum of
  \<open>- p * log2 p\<close> over the classes present, with \<open>p = count(c) / len(y)\<close>. On the
  exact machine, and in double precision with an \<open>np.log2\<close> that is 0 at 1 and not
  positive on \<open>(0, 1]\<close>, the result is not negative, every argument of \<open>np.log2\<close>
  lies in \<open>(0, 1]\<close>, so the logarithm of 0 is never taken, and when \<open>y\<close> has one
  distinct class the entropy is 0.
\<close>

theorem entropy_env_spec:
  assumes "y \<noteq> []"
  shows "log2_arguments_env m y =
           map (\<lambda>c. rnd m (real (count_list y c) / real (length y)))
             (sorted_list_of_set (set y)) \<and>
         entropy_env m y =
           fold (\<lambda>p e. rnd m (e - rnd m (p * np_log2 m p))) (log2_arguments_env m y) 0 \<and>
         entropy_env (exact_machine cap) y =
           - (\<Sum>c\<in>set y. real (count_list y c) / real (length y) *
                            log 2 (real (count_list y c) / real (length y))) \<and>
         0 \<le> entropy_env (exact_machine cap) y \<and>
         list_all (\<lambda>p. 0 < p \<and> p \<le> 1) (log2_arguments_env (exact_machine cap) y) \<and>
         (card (set y) = 1 \<longrightarrow> entropy_env (exact_machine cap) y = 0) \<and>
         (rnd m = double_round \<and> np_log2 m 1 = 0 \<and>
          (\<forall>x. 0 < x \<and> x \<le> 1 \<longrightarrow> np_log2 m x \<le> 0) \<longrightarrow>
            0 \<le> entropy_env m y \<and>
            list_all (\<lambda>p. 0 < p \<and> p \<le> 1) (log2_arguments_env m y) \<and>
            (card (set y) = 1 \<longrightarrow> entropy_env m y = 0))"
proof -
  have a: "list_all (\<lambda>p. 0 < p \<and> p \<le> 1) (log2_arguments_env (exact_machine cap) y)"
    by (rule log2_arguments_env_unit) (simp add: exact_machine_fields)
  have c: "entropy_env (exact_machine cap) y = 0" if "card (set y) = 1"
    using that by (simp add: entropy_env_single exact_machine_fields)
  have d: "0 \<le> entropy_env m y \<and>
            list_all (\<lambda>p. 0 < p \<and> p \<le> 1) (log2_arguments_env m y) \<and>
            (card (set y) = 1 \<longrightarrow> entropy_env m y = 0)"
    if h: "rnd m = double_round \<and> np_log2 m 1 = 0 \<and>
          (\<forall>x. 0 < x \<and> x \<le> 1 \<longrightarrow> np_log2 m x \<le> 0)"
  proof -
    from h have r: "rnd m = double_round" and l1: "np_log2 m 1 = 0"
      and l: "\<And>x. 0 < x \<Longrightarrow> x \<le> 1 \<Longrightarrow> np_log2 m x \<le> 0" by simp_all
    have "0 \<le> entropy_env m y" using r l by (rule entropy_env_double_nonneg)
    moreover have "list_all (\<lambda>p. 0 < p \<and> p \<le> 1) (log2_arguments_env m y)"
      by (rule log2_arguments_env_unit) (simp add: r double_round_unit)
    moreover have "entropy_env m y = 0" if "card (set y) = 1"
      using that by (simp add: entropy_env_single r l1 double_round_exact_values)
    ultimately show ?thesis by simp
  qed
  from a c d log2_arguments_env_count [of m y] entropy_env_fold_arguments [of m y]
    entropy_env_exact_sum [OF exact_machine_fields, of cap y]
    entropy_env_exact_nonneg [of cap y]
  show ?thesis by simp
qed

lemma double_round_three_quarters: "double_round (3/4) = 3/4"
  by (subst double_round_small [of 1]) (simp_all add: round_half_even_def)

theorem entropy_env_spec_witness:
  "[0, 1, 1, 1] \<noteq> ([]::int list) \<and>
   log2_arguments_env (double_machine 2) [0, 1, 1, 1] = [1/4, 3/4] \<and>
   entropy_env (exact_machine 2) [0, 1, 1, 1] = 2 - 3/4 * log 2 3 \<and>
   rnd (double_machine 2) = double_round \<and> np_log2 (double_machine 2) 1 = 0 \<and>
   0 \<le> entropy_env (double_machine 2) [0, 1, 1, 1] \<and>
   [3, 3] \<noteq> ([]::int list) \<and> card (set [3, 3::int]) = 1 \<and>
   entropy_env (double_machine 2) [3, 3] = 0"
proof -
  let ?y = "[0, 1, 1, 1::int]"
  have ne: "?y \<noteq> []" by simp
  have h: "rnd (double_machine 2) = double_round \<and> np_log2 (double_machine 2) 1 = 0 \<and>
          (\<forall>x. 0 < x \<and> x \<le> 1 \<longrightarrow> np_log2 (double_machine 2) x \<le> 0)"
    by (simp add: double_machine_fields(1) double_machine_log2)
  note t = entropy_env_spec [OF ne, of "double_machine 2" 2]
  have s: "sorted_list_of_set (set ?y) = [0, 1]"
    by (simp add: sorted_list_of_set_sort_remdups)
  from t have "log2_arguments_env (double_machine 2) ?y =
      map (\<lambda>c. rnd (double_machine 2) (real (count_list ?y c) / real (length ?y)))
        (sorted_list_of_set (set ?y))" by blast
  then have args: "log2_arguments_env (double_machine 2) ?y = [1/4, 3/4]"
    by (simp add: s double_machine_fields double_round_exact_values
        double_round_three_quarters)
  have l4: "log 2 (1/4) = -2" by (rule log2_quarter)
  have l34: "log 2 (3/4) = log 2 3 - 2"
    using log_divide [of 2 3 4] log2_quarter by (simp add: log_divide)
  from t have "entropy_env (exact_machine 2) ?y =
      - (\<Sum>c\<in>set ?y. real (count_list ?y c) / real (length ?y) *
                       log 2 (real (count_list ?y c) / real (length ?y)))" by blast
  then have ex: "entropy_env (exact_machine 2) ?y = 2 - 3/4 * log 2 3"
    by (simp add: l4 l34 algebra_simps) argo
  from t h have nn: "0 \<le> entropy_env (double_machine 2) ?y" by blast
  have ne3: "[3, 3] \<noteq> ([]::int list)" and c3: "card (set [3, 3::int]) = 1" by simp_all
  from entropy_env_spec [OF ne3, of "double_machine 2" 2] c3 h
  have z: "entropy_env (double_machine 2) [3, 3] = 0" by blast
  from ne args ex h nn ne3 c3 z show ?thesis by blast
qed

end
